theory Spec2Isabelle
  imports Main "HOL-Library.Word"
begin

section \<open>Data model of the deferred task scheduler\<close>

text \<open>
  The embedding follows \<^verbatim>\<open>include/scheduler/scheduler.hpp\<close>.  Ticks and identifiers are
  \<^verbatim>\<open>uint32_t\<close>, modelled as \<open>32 word\<close>, so \<open>+\<close> and \<open>-\<close> wrap modulo \<open>2 ^ 32\<close> and
  \<open>sint\<close> is the \<^verbatim>\<open>static_cast<int32_t>\<close> of the source.  A function pointer and the
  opaque \<^verbatim>\<open>void*\<close> are addresses (\<open>nat\<close>, \<open>0\<close> for \<^verbatim>\<open>nullptr\<close>).  The critical sections
  bracket each operation as a whole, so every operation is one atomic state transformer.
\<close>

type_synonym u32 = "32 word"

record task =
  executeTime :: u32
  func :: nat
  param :: nat
  taskId :: u32

text \<open>
  The private members of \<^verbatim>\<open>Scheduler\<close>: the array \<^verbatim>\<open>_taskList[MaxTaskCount]\<close>, the count
  \<^verbatim>\<open>_taskCount\<close> and the identity counter \<^verbatim>\<open>_id\<close>.  The count is an \<^verbatim>\<open>int\<close> in the source;
  it is only ever decremented after a slot below it was found, so it is a \<open>nat\<close> here.
\<close>

record scheduler =
  taskList :: "task list"
  taskCount :: nat
  idCounter :: u32

definition kSchedulerDefaultId :: u32 where
  "kSchedulerDefaultId = 0"

text \<open>The default member initialisers of \<^verbatim>\<open>Task\<close> and of the scheduler.\<close>

definition emptyTask :: task where
  "emptyTask = \<lparr>executeTime = 0, func = 0, param = 0, taskId = 0\<rparr>"

definition initScheduler :: "nat \<Rightarrow> scheduler" where
  "initScheduler N = \<lparr>taskList = replicate N emptyTask, taskCount = 0, idCounter = 1\<rparr>"

text \<open>The live slots \<open>[0, taskCount)\<close> and the shape every operation relies on.\<close>

definition live :: "'a scheduler_scheme \<Rightarrow> task list" where
  "live s = take (taskCount s) (taskList s)"

definition well_formed :: "nat \<Rightarrow> 'a scheduler_scheme \<Rightarrow> bool" where
  "well_formed N s = (length (taskList s) = N \<and> taskCount s \<le> N)"

text \<open>Wrap-aware dueness: \<^verbatim>\<open>static_cast<int32_t>(now - executeTime) < 0\<close> means not yet due.\<close>

definition due :: "u32 \<Rightarrow> task \<Rightarrow> bool" where
  "due now t = (\<not> sint (now - executeTime t) < 0)"

section \<open>The operations\<close>

text \<open>
  \<^verbatim>\<open>for (int k = ...; k < _taskCount; k++) _taskList[k - 1] = _taskList[k];\<close>
  The loop occurs three times in the source, started at \<open>k = 1\<close> by \<^verbatim>\<open>update\<close> and at
  \<open>k = i + 1\<close> by the two removals.
\<close>

function shift_left :: "task list \<Rightarrow> nat \<Rightarrow> nat \<Rightarrow> task list" where
  "shift_left xs k n = (if k < n then shift_left (xs[k - 1 := xs ! k]) (Suc k) n else xs)"
  by pat_completeness auto
termination
  by (relation "measure (\<lambda>(xs, k, n). n - k)") auto

text \<open>
  The search-and-remove loop of \<^verbatim>\<open>unscheduleTask\<close>; \<^verbatim>\<open>scheduleTask\<close> repeats it verbatim
  for a non-zero \<^verbatim>\<open>reuseId\<close>.  It removes the first live slot carrying the id and stops.
\<close>

function remove_loop :: "u32 \<Rightarrow> 'a scheduler_scheme \<Rightarrow> nat \<Rightarrow> 'a scheduler_scheme" where
  "remove_loop tid s i =
     (if i < taskCount s then
        (if taskId (taskList s ! i) = tid
         then s\<lparr>taskList := shift_left (taskList s) (i + 1) (taskCount s),
                taskCount := taskCount s - 1\<rparr>
         else remove_loop tid s (Suc i))
      else s)"
  by pat_completeness auto
termination
  by (relation "measure (\<lambda>(tid, s, i). taskCount s - i)") auto

definition unscheduleTask :: "u32 \<Rightarrow> 'a scheduler_scheme \<Rightarrow> 'a scheduler_scheme" where
  "unscheduleTask tid s = remove_loop tid s 0"

text \<open>
  The insertion loop of \<^verbatim>\<open>scheduleTask\<close>:
  \<^verbatim>\<open>while (i >= 0 && static_cast<int32_t>(target_time - _taskList[i].executeTime) < 0)
       { _taskList[i + 1] = _taskList[i]; i--; }\<close>
  It returns the array and the final \<open>i\<close> (which may be \<open>-1\<close>).
\<close>

function insert_loop :: "u32 \<Rightarrow> task list \<Rightarrow> int \<Rightarrow> task list \<times> int" where
  "insert_loop target xs i =
     (if 0 \<le> i \<and> sint (target - executeTime (xs ! nat i)) < 0
      then insert_loop target (xs[nat (i + 1) := xs ! nat i]) (i - 1)
      else (xs, i))"
  by pat_completeness auto
termination
  by (relation "measure (\<lambda>(target, xs, i). nat (i + 1))") auto

text \<open>
  \<^verbatim>\<open>static_cast<int>(MaxTaskCount)\<close>, the bound of the capacity test.  The template parameter
  is a \<^verbatim>\<open>uint32_t\<close> and \<^verbatim>\<open>_taskCount\<close> an \<^verbatim>\<open>int\<close>, so the comparison is signed: for
  \<^verbatim>\<open>MaxTaskCount\<close> from \<open>2 ^ 31\<close> on the cast is negative and no count is below it.
\<close>

definition capacity :: "nat \<Rightarrow> int" where
  "capacity N = sint (word_of_nat N :: u32)"

text \<open>
  \<^verbatim>\<open>scheduleTask(func, param, delay, reuseId)\<close> for the template parameter
  \<^verbatim>\<open>MaxTaskCount = N\<close>; \<open>tick\<close> is the value \<^verbatim>\<open>CPU::getSystemTick()\<close> returned.  The result is
  the returned id and the new state.
\<close>

definition scheduleTask ::
  "nat \<Rightarrow> nat \<Rightarrow> nat \<Rightarrow> u32 \<Rightarrow> u32 \<Rightarrow> u32 \<Rightarrow> 'a scheduler_scheme
     \<Rightarrow> u32 \<times> 'a scheduler_scheme" where
  "scheduleTask N fn pr tick delay reuseId s =
     (let target_time = tick + delay;
          s1 = (if reuseId \<noteq> 0 then remove_loop reuseId s 0 else s)
      in if capacity N \<le> int (taskCount s1) then (0, s1)
         else
           let (xs, i) = insert_loop target_time (taskList s1) (int (taskCount s1) - 1);
               new_id = (if reuseId \<noteq> 0 then reuseId else idCounter s1);
               ctr = (if reuseId \<noteq> 0 then idCounter s1 else idCounter s1 + 1);
               slot = \<lparr>executeTime = target_time, func = fn, param = pr, taskId = new_id\<rparr>
           in (new_id, s1\<lparr>taskList := xs[nat (i + 1) := slot],
                           taskCount := taskCount s1 + 1,
                           idCounter := ctr\<rparr>))"

text \<open>
  \<^verbatim>\<open>update()\<close>.  \<open>now\<close> is the single tick sample taken before the loop.  The call
  \<^verbatim>\<open>task.func(task.param)\<close> runs arbitrary user code that may call back into the scheduler:
  \<open>cb\<close> gives its effect on the state.  The third argument records the tasks whose
  callback was invoked, in order.  A callback may re-arm itself for ever, so the loop is
  partial: \<open>None\<close> stands for an \<^verbatim>\<open>update\<close> that never returns.

  All operations are stated for any extension \<open>'a scheduler_scheme\<close> of the record.  The
  extension stands for the state of the rest of the program: the scheduler never touches
  it, a callback may read and change it.
\<close>

partial_function (option) update_loop ::
  "(nat \<Rightarrow> nat \<Rightarrow> 'a scheduler_scheme \<Rightarrow> 'a scheduler_scheme) \<Rightarrow> u32 \<Rightarrow> task list
     \<Rightarrow> 'a scheduler_scheme \<Rightarrow> (task list \<times> 'a scheduler_scheme) option" where
  [code]: "update_loop cb now fired s =
     (if taskCount s = 0 then Some (fired, s)
      else if sint (now - executeTime (taskList s ! 0)) < 0 then Some (fired, s)
      else
        let task = taskList s ! 0;
            s1 = s\<lparr>taskList := shift_left (taskList s) 1 (taskCount s),
                   taskCount := taskCount s - 1\<rparr>;
            task_count = taskCount s1;
            s2 = cb (func task) (param task) s1
        in if task_count = 0 then Some (fired @ [task], s2)
           else update_loop cb now (fired @ [task]) s2)"

definition update ::
  "(nat \<Rightarrow> nat \<Rightarrow> 'a scheduler_scheme \<Rightarrow> 'a scheduler_scheme) \<Rightarrow> u32 \<Rightarrow> 'a scheduler_scheme
     \<Rightarrow> (task list \<times> 'a scheduler_scheme) option" where
  "update cb now s = update_loop cb now [] s"

text \<open>A callback that does not call back into the scheduler.\<close>

definition quiet :: "nat \<Rightarrow> nat \<Rightarrow> 'a scheduler_scheme \<Rightarrow> 'a scheduler_scheme" where
  "quiet fn pr s = s"

section \<open>Specification vocabulary\<close>

text \<open>
  The state \<^verbatim>\<open>scheduleTask\<close> has reached when it tests the capacity: the table after the
  removal of a live task carrying a non-zero \<^verbatim>\<open>reuseId\<close>.
\<close>

definition reuse_removal :: "u32 \<Rightarrow> 'a scheduler_scheme \<Rightarrow> 'a scheduler_scheme" where
  "reuse_removal rid s = (if rid \<noteq> 0 then remove_loop rid s 0 else s)"

text \<open>
  The four fields \<^verbatim>\<open>scheduleTask\<close> writes into the slot it has opened.
\<close>

definition new_slot ::
  "nat \<Rightarrow> nat \<Rightarrow> u32 \<Rightarrow> u32 \<Rightarrow> u32 \<Rightarrow> 'a scheduler_scheme \<Rightarrow> task" where
  "new_slot fn pr tick delay rid s =
     \<lparr>executeTime = tick + delay, func = fn, param = pr,
      taskId = (if rid \<noteq> 0 then rid else idCounter s)\<rparr>"

text \<open>
  The removal of the head inside \<^verbatim>\<open>update\<close>: shift left from \<open>k = 1\<close>, decrement the
  count.
\<close>

definition pop_head :: "'a scheduler_scheme \<Rightarrow> 'a scheduler_scheme" where
  "pop_head s =
     s\<lparr>taskList := shift_left (taskList s) 1 (taskCount s), taskCount := taskCount s - 1\<rparr>"

text \<open>
  What the search-and-remove loop does to the sequence of live tasks: the first task
  carrying the id goes, the order of the others stays.
\<close>

fun del_id :: "u32 \<Rightarrow> task list \<Rightarrow> task list" where
  "del_id tid [] = []"
| "del_id tid (t # ts) = (if taskId t = tid then ts else t # del_id tid ts)"

text \<open>
  The test of the insertion loop, \<^verbatim>\<open>static_cast<int32_t>(target_time - executeTime) < 0\<close>.
\<close>

definition later :: "u32 \<Rightarrow> task \<Rightarrow> bool" where
  "later target t = (sint (target - executeTime t) < 0)"

text \<open>
  The insertion loop counted in \<open>j = i + 1\<close>, the number of slots not yet examined, so
  that the index stays a natural number.  \<open>insert_loop_ins_n\<close> below shows it is the same
  loop.
\<close>

fun ins_n :: "u32 \<Rightarrow> task list \<Rightarrow> nat \<Rightarrow> task list \<times> nat" where
  "ins_n target xs 0 = (xs, 0)"
| "ins_n target xs (Suc j) =
     (if sint (target - executeTime (xs ! j)) < 0
      then ins_n target (xs[Suc j := xs ! j]) j else (xs, Suc j))"

text \<open>
  What the insertion does to the sequence of live tasks: scanning from the back, the
  tasks that are \<open>later\<close> than the newcomer move one slot up and the newcomer lands
  right behind the last task that is not.
\<close>

definition ins_task :: "task \<Rightarrow> task list \<Rightarrow> task list" where
  "ins_task new ts =
     rev (dropWhile (later (executeTime new)) (rev ts)) @ [new] @
     rev (takeWhile (later (executeTime new)) (rev ts))"

text \<open>
  Wrap-aware order of adjacent live slots:
  \<^verbatim>\<open>signed32(taskList[i+1].executeTime - taskList[i].executeTime) >= 0\<close>.
\<close>

fun wrap_sorted :: "task list \<Rightarrow> bool" where
  "wrap_sorted [] = True"
| "wrap_sorted [t] = True"
| "wrap_sorted (a # b # ts) =
     (0 \<le> sint (executeTime b - executeTime a) \<and> wrap_sorted (b # ts))"

text \<open>
  A half-range window: all deadlines lie less than \<open>2 ^ 31\<close> ticks after a common base
  tick, and the table is ordered by the distance from that base.
\<close>

definition offs :: "u32 \<Rightarrow> task \<Rightarrow> nat" where
  "offs base t = unat (executeTime t - base)"

definition in_window :: "u32 \<Rightarrow> task list \<Rightarrow> bool" where
  "in_window base ts = (sorted (map (offs base) ts) \<and> list_all (\<lambda>t. offs base t < 2 ^ 31) ts)"

definition window_inv :: "nat \<Rightarrow> u32 \<Rightarrow> 'a scheduler_scheme \<Rightarrow> bool" where
  "window_inv N base s = (well_formed N s \<and> in_window base (live s))"

text \<open>
  No due task sits behind a task that is not yet due.
\<close>

definition due_first :: "u32 \<Rightarrow> task list \<Rightarrow> bool" where
  "due_first now ts = list_all (\<lambda>t. \<not> due now t) (dropWhile (due now) ts)"

text \<open>
  Live ids are non-zero, pairwise distinct and below the identity counter, which is
  itself non-zero.
\<close>

definition ids_ok :: "'a scheduler_scheme \<Rightarrow> bool" where
  "ids_ok s = (idCounter s \<noteq> 0 \<and> distinct (map taskId (live s)) \<and>
               list_all (\<lambda>t. taskId t \<noteq> 0 \<and> taskId t < idCounter s) (live s))"

text \<open>
  Callbacks that call back into the scheduler: one that schedules its own function and
  parameter again with delay 0 at the tick it reads, and one that unschedules a fixed id.
\<close>

definition rearm :: "nat \<Rightarrow> u32 \<Rightarrow> nat \<Rightarrow> nat \<Rightarrow> 'a scheduler_scheme \<Rightarrow> 'a scheduler_scheme" where
  "rearm N tick fn pr s = snd (scheduleTask N fn pr tick 0 0 s)"

definition cancel :: "u32 \<Rightarrow> nat \<Rightarrow> nat \<Rightarrow> 'a scheduler_scheme \<Rightarrow> 'a scheduler_scheme" where
  "cancel tid fn pr s = unscheduleTask tid s"

text \<open>
  A client of the scheduler that numbers its \<^verbatim>\<open>scheduleTask\<close> calls, as \<^verbatim>\<open>SchedulerHelper\<close>
  of the tests does when it appends a completion object per call and passes its address:
  the state is the scheduler extended by the number of calls made so far, and every call
  passes that number as \<^verbatim>\<open>param\<close>.  So \<^verbatim>\<open>param\<close> records the order in which the tasks were
  scheduled, whether from the host loop or from inside a callback.
\<close>

record stamped = scheduler +
  nextStamp :: nat

datatype request =
    Arm nat u32 u32 u32
  | Cancel u32

fun perform :: "nat \<Rightarrow> request \<Rightarrow> stamped \<Rightarrow> stamped" where
  "perform N (Arm fn tick delay rid) h =
     (snd (scheduleTask N fn (nextStamp h) tick delay rid h))\<lparr>nextStamp := Suc (nextStamp h)\<rparr>"
| "perform N (Cancel tid) h = unscheduleTask tid h"

text \<open>
  A callback is given by the requests it makes, which may depend on the function, the
  parameter and the state it finds.  The host loop makes requests and calls \<^verbatim>\<open>update\<close>;
  the first component of the run collects the tasks whose callback was invoked, in order.
\<close>

definition scripted ::
  "nat \<Rightarrow> (nat \<Rightarrow> nat \<Rightarrow> stamped \<Rightarrow> request list) \<Rightarrow> nat \<Rightarrow> nat \<Rightarrow> stamped \<Rightarrow> stamped" where
  "scripted N script fn pr h = fold (perform N) (script fn pr h) h"

datatype call =
    Request request
  | Drain u32

fun run_call ::
  "nat \<Rightarrow> (nat \<Rightarrow> nat \<Rightarrow> stamped \<Rightarrow> request list) \<Rightarrow> call \<Rightarrow> task list \<times> stamped
     \<Rightarrow> (task list \<times> stamped) option" where
  "run_call N script (Request r) (fired, h) = Some (fired, perform N r h)"
| "run_call N script (Drain now) (fired, h) =
     (case update (scripted N script) now h of
        None \<Rightarrow> None
      | Some (ds, h1) \<Rightarrow> Some (fired @ ds, h1))"

fun run_calls ::
  "nat \<Rightarrow> (nat \<Rightarrow> nat \<Rightarrow> stamped \<Rightarrow> request list) \<Rightarrow> call list \<Rightarrow> task list \<times> stamped
     \<Rightarrow> (task list \<times> stamped) option" where
  "run_calls N script [] st = Some st"
| "run_calls N script (c # cs) st =
     (case run_call N script c st of None \<Rightarrow> None | Some st' \<Rightarrow> run_calls N script cs st')"

definition no_requests :: "nat \<Rightarrow> nat \<Rightarrow> stamped \<Rightarrow> request list" where
  "no_requests fn pr h = []"

text \<open>
  Tasks with equal deadlines appear in the order of their stamps.
\<close>

definition fifo :: "task list \<Rightarrow> bool" where
  "fifo ts = sorted_wrt (\<lambda>a b. executeTime a = executeTime b \<longrightarrow> param a < param b) ts"

text \<open>
  The invariant of a run of the numbering client: the table is well formed, the tasks
  dispatched so far followed by the live tasks are in stamp order among equal deadlines,
  and every stamp in use is below the next one to be handed out.
\<close>

definition stamp_inv :: "nat \<Rightarrow> task list \<times> stamped \<Rightarrow> bool" where
  "stamp_inv N st =
     (well_formed N (snd st) \<and> fifo (fst st @ live (snd st)) \<and>
      list_all (\<lambda>t. param t < nextStamp (snd st)) (fst st @ live (snd st)))"

text \<open>
  The \<open>i\<close>-th task of a batch scheduled with the same function and deadline by a
  client whose next stamp is \<open>g\<close>, on a scheduler whose identity counter is \<open>c\<close>.
\<close>

definition batch_slot :: "nat \<Rightarrow> u32 \<Rightarrow> nat \<Rightarrow> u32 \<Rightarrow> nat \<Rightarrow> task" where
  "batch_slot fn target g c i =
     \<lparr>executeTime = target, func = fn, param = g + i, taskId = c + of_nat i\<rparr>"

section \<open>Concrete scheduler states\<close>

text \<open>
  Two tasks scheduled at tick 0 with delays 20 and 10, capacity 3.
\<close>

definition two_pending :: scheduler where
  "two_pending =
     snd (scheduleTask 3 1 2 0 10 0 (snd (scheduleTask 3 1 1 0 20 0 (initScheduler 3))))"

text \<open>
  The same two tasks filling a table of capacity 2.
\<close>

definition full_table :: scheduler where
  "full_table =
     snd (scheduleTask 2 1 2 0 10 0 (snd (scheduleTask 2 1 1 0 20 0 (initScheduler 2))))"

text \<open>
  Delays 0 and \<open>2 ^ 31 - 1\<close>, both scheduled at tick 0.
\<close>

definition late_table :: scheduler where
  "late_table =
     snd (scheduleTask 2 1 2 0 (2 ^ 31 - 1) 0 (snd (scheduleTask 2 1 1 0 0 0 (initScheduler 2))))"

text \<open>
  Delay 0 at tick 0, then delay \<open>2 ^ 31 - 1\<close> at tick 1.
\<close>

definition boundary_table :: scheduler where
  "boundary_table =
     snd (scheduleTask 2 1 2 1 (2 ^ 31 - 1) 0 (snd (scheduleTask 2 1 1 0 0 0 (initScheduler 2))))"

text \<open>
  A task scheduled under the caller-chosen id 1, then a fresh one.
\<close>

definition clash_table :: scheduler where
  "clash_table =
     snd (scheduleTask 2 1 2 0 10 0 (snd (scheduleTask 2 1 1 0 0 1 (initScheduler 2))))"

text \<open>
  One task scheduled under the caller-chosen id 1; the counter still stands at 1.
\<close>

definition reused_one :: scheduler where
  "reused_one = snd (scheduleTask 2 1 1 0 100 1 (initScheduler 2))"

text \<open>
  Capacity 3: a task under the caller-chosen id 1, then a fresh task, which is given
  id 1 as well.
\<close>

definition twin_table :: scheduler where
  "twin_table =
     snd (scheduleTask 3 1 2 0 30 0 (snd (scheduleTask 3 1 1 0 20 1 (initScheduler 3))))"

text \<open>
  One fresh \<^verbatim>\<open>scheduleTask\<close> followed by \<^verbatim>\<open>unscheduleTask\<close> of the id it returned.
\<close>

definition churn :: "scheduler \<Rightarrow> scheduler" where
  "churn s = unscheduleTask (fst (scheduleTask 2 1 0 0 0 0 s)) (snd (scheduleTask 2 1 0 0 0 0 s))"

text \<open>
  The empty table of capacity 2 with the identity counter wrapped to 0.
\<close>

definition wrapped_counter :: scheduler where
  "wrapped_counter =
     \<lparr>taskList = [\<lparr>executeTime = 0, func = 1, param = 0, taskId = - 1\<rparr>, emptyTask],
      taskCount = 0, idCounter = 0\<rparr>"

text \<open>
  One task due at tick 10, capacity 3.
\<close>

definition one_due :: scheduler where
  "one_due = snd (scheduleTask 3 1 1 0 10 0 (initScheduler 3))"

text \<open>
  The initial state of capacity \<open>2 ^ 31\<close>.
\<close>

definition huge_table :: scheduler where
  "huge_table = initScheduler (2 ^ 31)"

text \<open>
  The numbering client on the initial state of capacity 3; three tasks with the same
  deadline 10, scheduled at ticks 0, 3 and 5, then an \<^verbatim>\<open>update\<close> at tick 10; and callbacks
  that, for each of the first three tasks, schedule one more task for tick 10.
\<close>

definition client3 :: stamped where
  "client3 = \<lparr>taskList = replicate 3 emptyTask, taskCount = 0, idCounter = 1, nextStamp = 0\<rparr>"

definition fifo_calls :: "call list" where
  "fifo_calls = [Request (Arm 1 0 10 0), Request (Arm 1 3 7 0), Request (Arm 1 5 5 0), Drain 10]"

definition follow_up :: "nat \<Rightarrow> nat \<Rightarrow> stamped \<Rightarrow> request list" where
  "follow_up fn pr h = (if pr < 3 then [Arm 2 10 0 0] else [])"

declare shift_left.simps [simp del] remove_loop.simps [simp del] insert_loop.simps [simp del]

section \<open>Signed differences within half the range\<close>

lemma sint_u32: "sint (w :: u32) = (if uint w < 2 ^ 31 then uint w else uint w - 2 ^ 32)"
proof -
  have r: "0 \<le> uint w" "uint w < 2 ^ 32" using uint_lt2p[of w] by simp_all
  have "sint w = take_bit 32 (uint w + 2 ^ 31) - 2 ^ 31"
    by (simp add: sint_uint signed_take_bit_eq_take_bit_shift)
  also have "take_bit 32 (uint w + 2 ^ 31) = (uint w + 2 ^ 31) mod 2 ^ 32"
    by (simp add: take_bit_eq_mod)
  also have "(uint w + 2 ^ 31) mod 2 ^ 32 =
      (if uint w < 2 ^ 31 then uint w + 2 ^ 31 else uint w - 2 ^ 31)"
  proof (cases "uint w < 2 ^ 31")
    case True
    then show ?thesis using r by simp
  next
    case False
    define v where "v = uint w - 2 ^ 31"
    have v: "0 \<le> v" "v < 2 ^ 32" using False r by (simp_all add: v_def)
    have "uint w + 2 ^ 31 = v + 2 ^ 32" by (simp add: v_def)
    moreover have "(v + 2 ^ 32) mod 2 ^ 32 = v" using v by simp
    ultimately show ?thesis using False by (simp add: v_def add.commute)
  qed
  finally show ?thesis by simp
qed

lemma diff_mod_window:
  fixes x y :: int
  assumes "0 \<le> x" "x < 2 ^ 31" "0 \<le> y" "y < 2 ^ 31"
  shows "(y - x) mod 2 ^ 32 = (if x \<le> y then y - x else y - x + 2 ^ 32)"
proof (cases "x \<le> y")
  case True
  define d where "d = y - x"
  have "0 \<le> d" "d < 2 ^ 32" using True assms by (simp_all add: d_def)
  then have "d mod 2 ^ 32 = d" by simp
  then show ?thesis using True by (simp add: d_def)
next
  case False
  define v where "v = y - x + 2 ^ 32"
  have v: "0 \<le> v" "v < 2 ^ 32" using False assms by (simp_all add: v_def)
  have "y - x = v - 2 ^ 32" by (simp add: v_def)
  moreover have "(v - 2 ^ 32) mod 2 ^ 32 = v" using v by simp
  ultimately show ?thesis using False by (simp add: v_def)
qed

lemma signed_diff_window:
  fixes x y :: int
  assumes "0 \<le> x" "x < 2 ^ 31" "0 \<le> y" "y < 2 ^ 31"
  shows "(if (y - x) mod 2 ^ 32 < 2 ^ 31 then (y - x) mod 2 ^ 32 else (y - x) mod 2 ^ 32 - 2 ^ 32)
         = y - x"
  unfolding diff_mod_window[OF assms] using assms by auto

lemma window_sint:
  fixes a b c :: u32
  assumes "unat (a - b) < 2 ^ 31" "unat (c - b) < 2 ^ 31"
  shows "sint (c - a) = int (unat (c - b)) - int (unat (a - b))"
proof -
  let ?x = "uint (a - b)" and ?y = "uint (c - b)"
  have xy: "?x = int (unat (a - b))" "?y = int (unat (c - b))" by simp_all
  have "int (unat (a - b)) < int (2 ^ 31)" "int (unat (c - b)) < int (2 ^ 31)"
    using assms by (simp_all only: of_nat_less_iff)
  then have x: "0 \<le> ?x" "?x < 2 ^ 31" and y: "0 \<le> ?y" "?y < 2 ^ 31"
    by (simp_all only: xy) simp_all
  have sub: "uint (p - q) = (uint p - uint q) mod 2 ^ 32" for p q :: u32
    by (simp add: uint_word_ariths)
  have "(c - b) - (a - b) = c - a" by simp
  with sub[of "c - b" "a - b"] have u: "uint (c - a) = (?y - ?x) mod 2 ^ 32" by simp
  have "sint (c - a) = ?y - ?x"
    unfolding sint_u32 u using x y by (rule signed_diff_window)
  then show ?thesis by (simp only: xy)
qed


lemma word_less_succ:
  fixes x c :: u32
  assumes "c \<noteq> - 1" "x \<le> c"
  shows "x < c + 1"
proof -
  have "c + 1 \<noteq> 0" using assms(1) by (simp add: eq_neg_iff_add_eq_0)
  then have "1 + c \<noteq> 0" by (simp add: add.commute)
  then have "unat (1 + c) = Suc (unat c)" by (rule unatSuc)
  moreover have "unat x \<le> unat c" using assms(2) by (simp add: word_le_nat_alt)
  ultimately show ?thesis by (simp add: word_less_nat_alt add.commute)
qed

lemma word_succ_nonzero: "(c :: u32) \<noteq> - 1 \<Longrightarrow> c + 1 \<noteq> 0"
  by (simp add: eq_neg_iff_add_eq_0)

lemma capacity_le: "capacity N \<le> int N"
proof -
  let ?w = "word_of_nat N :: u32"
  have "uint ?w = int (N mod 2 ^ 32)" by (simp add: uint_nat unat_of_nat)
  then have u: "uint ?w \<le> int N" by (simp add: zmod_int[symmetric])
  have "sint ?w \<le> uint ?w" by (simp add: sint_u32)
  then show ?thesis using u by (simp add: capacity_def)
qed

lemma capacity_small: "N < 2 ^ 31 \<Longrightarrow> capacity N = int N"
proof -
  assume n: "N < 2 ^ 31"
  let ?w = "word_of_nat N :: u32"
  have "unat ?w = N" using n by (simp add: unat_of_nat)
  then have "uint ?w = int N" by (simp add: uint_nat)
  moreover have "int N < 2 ^ 31" using n by (metis of_nat_less_iff of_nat_numeral of_nat_power)
  ultimately show ?thesis by (simp add: capacity_def sint_u32)
qed

lemma capacity_big: "2 ^ 31 \<le> N \<Longrightarrow> N < 2 ^ 32 \<Longrightarrow> capacity N < 0"
proof -
  assume lo: "2 ^ 31 \<le> N" and hi: "N < 2 ^ 32"
  let ?w = "word_of_nat N :: u32"
  have "unat ?w = N" using hi by (simp add: unat_of_nat)
  then have u: "uint ?w = int N" by (simp add: uint_nat)
  have "int (2 ^ 31) \<le> int N" "int N < int (2 ^ 32)"
    using lo hi by (simp_all only: of_nat_le_iff of_nat_less_iff)
  then have "2 ^ 31 \<le> int N" "int N < 2 ^ 32" by simp_all
  then show ?thesis by (simp add: capacity_def sint_u32 u)
qed

section \<open>The loops on the array\<close>

lemma shift_left_length [simp]: "length (shift_left xs k n) = length xs"
  by (induction xs k n rule: shift_left.induct) (subst shift_left.simps, simp)

lemma shift_left_nth:
  "1 \<le> k \<Longrightarrow> n \<le> length xs \<Longrightarrow>
   shift_left xs k n ! j = (if k - 1 \<le> j \<and> j + 1 < n then xs ! (j + 1) else xs ! j)"
proof (induction xs k n arbitrary: j rule: shift_left.induct)
  case (1 xs k n)
  show ?case
  proof (cases "k < n")
    case True
    have "shift_left xs k n ! j = shift_left (xs[k - 1 := xs ! k]) (Suc k) n ! j"
      by (subst shift_left.simps) (simp add: True)
    also have "\<dots> = (if k \<le> j \<and> j + 1 < n then (xs[k - 1 := xs ! k]) ! (j + 1)
                      else (xs[k - 1 := xs ! k]) ! j)"
      using "1.IH"[OF True, of j] "1.prems" by simp
    also have "\<dots> = (if k - 1 \<le> j \<and> j + 1 < n then xs ! (j + 1) else xs ! j)"
      using True "1.prems" by (auto simp: nth_list_update)
    finally show ?thesis .
  next
    case False
    then show ?thesis by (subst shift_left.simps) auto
  qed
qed

lemma shift_left_take:
  assumes "i < n" "n \<le> length xs"
  shows "take (n - 1) (shift_left xs (Suc i) n) = take i (take n xs) @ drop (Suc i) (take n xs)"
proof (rule nth_equalityI)
  show "length (take (n - 1) (shift_left xs (Suc i) n)) =
        length (take i (take n xs) @ drop (Suc i) (take n xs))"
    using assms by auto
next
  fix j assume "j < length (take (n - 1) (shift_left xs (Suc i) n))"
  then have j: "j < n - 1" by simp
  then show "take (n - 1) (shift_left xs (Suc i) n) ! j =
             (take i (take n xs) @ drop (Suc i) (take n xs)) ! j"
    using assms by (auto simp: shift_left_nth nth_append)
qed

lemma remove_loop_frame [simp]:
  "idCounter (remove_loop tid s i) = idCounter s"
  "length (taskList (remove_loop tid s i)) = length (taskList s)"
  "scheduler.more (remove_loop tid s i) = scheduler.more s"
  by (induction tid s i rule: remove_loop.induct; subst remove_loop.simps; simp)+

text \<open>
  The removal loop refines \<open>del_id\<close> on the live slots.
\<close>

lemma remove_loop_live:
  "taskCount s \<le> length (taskList s) \<Longrightarrow> i \<le> taskCount s \<Longrightarrow>
   live (remove_loop tid s i) = take i (live s) @ del_id tid (drop i (live s))"
proof (induction tid s i rule: remove_loop.induct)
  case (1 tid s i)
  show ?case
  proof (cases "i < taskCount s")
    case False
    with "1.prems" show ?thesis
      by (subst remove_loop.simps) (simp add: live_def)
  next
    case True
    then have il: "i < length (live s)" using "1.prems" by (simp add: live_def)
    have nth: "live s ! i = taskList s ! i" using True by (simp add: live_def)
    have dr: "drop i (live s) = (taskList s ! i) # drop (Suc i) (live s)"
      using il nth by (metis Cons_nth_drop_Suc)
    show ?thesis
    proof (cases "taskId (taskList s ! i) = tid")
      case hit: True
      have "live (remove_loop tid s i) = take (taskCount s - 1) (shift_left (taskList s) (Suc i) (taskCount s))"
        by (subst remove_loop.simps) (simp add: True hit live_def)
      also have "\<dots> = take i (live s) @ drop (Suc i) (live s)"
        using shift_left_take[OF True] "1.prems" by (simp add: live_def)
      finally show ?thesis using dr hit by simp
    next
      case miss: False
      have "live (remove_loop tid s i) = live (remove_loop tid s (Suc i))"
        by (subst remove_loop.simps) (simp add: True miss)
      also have "\<dots> = take (Suc i) (live s) @ del_id tid (drop (Suc i) (live s))"
        using "1.IH"[OF True miss] "1.prems" True by simp
      finally show ?thesis using dr miss il nth by (simp add: take_Suc_conv_app_nth)
    qed
  qed
qed

lemma remove_loop_noop:
  "taskCount s \<le> length (taskList s) \<Longrightarrow>
   \<forall>t \<in> set (drop i (live s)). taskId t \<noteq> tid \<Longrightarrow> remove_loop tid s i = s"
proof (induction tid s i rule: remove_loop.induct)
  case (1 tid s i)
  show ?case
  proof (cases "i < taskCount s")
    case False
    then show ?thesis by (subst remove_loop.simps) simp
  next
    case True
    then have il: "i < length (live s)" using "1.prems" by (simp add: live_def)
    have nth: "live s ! i = taskList s ! i" using True by (simp add: live_def)
    have dr: "drop i (live s) = (taskList s ! i) # drop (Suc i) (live s)"
      using il nth by (metis Cons_nth_drop_Suc)
    have miss: "taskId (taskList s ! i) \<noteq> tid" using "1.prems"(2) dr by simp
    have "remove_loop tid s i = remove_loop tid s (Suc i)"
      by (subst remove_loop.simps) (simp add: True miss)
    also have "\<dots> = s" using "1.IH"[OF True miss] "1.prems" dr by simp
    finally show ?thesis .
  qed
qed

lemma remove_loop_counter_indep:
  "remove_loop tid (s\<lparr>idCounter := c\<rparr>) i = (remove_loop tid s i)\<lparr>idCounter := c\<rparr>"
proof (induction tid s i rule: remove_loop.induct)
  case (1 tid s i)
  show ?case
  proof (cases "i < taskCount s")
    case False
    then show ?thesis by (simp add: remove_loop.simps)
  next
    case True
    show ?thesis
    proof (cases "taskId (taskList s ! i) = tid")
      case hit: True
      show ?thesis using True hit
        by (subst (1 2) remove_loop.simps) simp
    next
      case miss: False
      have "remove_loop tid (s\<lparr>idCounter := c\<rparr>) i = remove_loop tid (s\<lparr>idCounter := c\<rparr>) (Suc i)"
        using True miss by (subst remove_loop.simps) simp
      moreover have "remove_loop tid s i = remove_loop tid s (Suc i)"
        using True miss by (subst remove_loop.simps) simp
      ultimately show ?thesis using "1.IH"[OF True miss] by simp
    qed
  qed
qed

lemma remove_loop_count_le:
  "i \<le> taskCount s \<Longrightarrow> taskCount (remove_loop tid s i) \<le> taskCount s \<and> i \<le> taskCount s"
  by (induction tid s i rule: remove_loop.induct) (subst remove_loop.simps, auto)

lemma remove_loop_count:
  "taskCount s \<le> length (taskList s) \<Longrightarrow> i \<le> taskCount s \<Longrightarrow>
   taskCount (remove_loop tid s i) = length (live (remove_loop tid s i))"
  using remove_loop_count_le[of i s tid] by (simp add: live_def)

lemma insert_loop_ins_n:
  "insert_loop target xs (int j - 1) = (case ins_n target xs j of (ys, k) \<Rightarrow> (ys, int k - 1))"
proof (induction j arbitrary: xs)
  case 0
  show ?case by (subst insert_loop.simps) simp
next
  case (Suc j)
  have eq: "int (Suc j) - 1 = int j" by simp
  show ?case
    unfolding eq
    apply (subst insert_loop.simps)
    using Suc[of "xs[Suc j := xs ! j]"]
    by (simp add: nat_add_distrib)
qed

lemma ins_n_spec:
  "j < length xs \<Longrightarrow> ins_n target xs j = (ys, k) \<Longrightarrow>
   length ys = length xs \<and> k \<le> j \<and>
   (\<forall>m. ys ! m = (if k < m \<and> m \<le> j then xs ! (m - 1) else xs ! m)) \<and>
   k = length (dropWhile (later target) (rev (take j xs)))"
proof (induction j arbitrary: xs ys k)
  case 0
  then show ?case by simp
next
  case (Suc j)
  show ?case
  proof (cases "sint (target - executeTime (xs ! j)) < 0")
    case False
    with Suc.prems show ?thesis
      by (auto simp: take_Suc_conv_app_nth later_def)
  next
    case True
    let ?xs = "xs[Suc j := xs ! j]"
    from True Suc.prems have rec: "ins_n target ?xs j = (ys, k)" by simp
    have jl: "j < length ?xs" using Suc.prems by simp
    from Suc.IH[OF jl rec] have
      len: "length ys = length xs" and kj: "k \<le> j" and
      nth: "\<And>m. ys ! m = (if k < m \<and> m \<le> j then ?xs ! (m - 1) else ?xs ! m)" and
      pos: "k = length (dropWhile (later target) (rev (take j ?xs)))"
      by auto
    have "\<And>m. ys ! m = (if k < m \<and> m \<le> Suc j then xs ! (m - 1) else xs ! m)"
      using nth kj Suc.prems(1) by (auto simp: nth_list_update)
    moreover have "k = length (dropWhile (later target) (rev (take (Suc j) xs)))"
      using pos True Suc.prems(1) by (simp add: take_Suc_conv_app_nth later_def)
    ultimately show ?thesis using len kj by auto
  qed
qed

lemma rev_split:
  "take (length (dropWhile P (rev ts))) ts = rev (dropWhile P (rev ts))"
  "drop (length (dropWhile P (rev ts))) ts = rev (takeWhile P (rev ts))"
proof -
  have "ts = rev (dropWhile P (rev ts)) @ rev (takeWhile P (rev ts))"
    by (metis rev_append rev_rev_ident takeWhile_dropWhile_id)
  then show "take (length (dropWhile P (rev ts))) ts = rev (dropWhile P (rev ts))"
    "drop (length (dropWhile P (rev ts))) ts = rev (takeWhile P (rev ts))"
    by (metis append_eq_conv_conj length_rev)+
qed

text \<open>
  The insertion loop followed by the write of the new slot refines \<open>ins_task\<close>.
\<close>

lemma ins_n_live:
  assumes "j < length xs" "ins_n target xs j = (ys, k)" "executeTime new = target"
  shows "take (Suc j) (ys[k := new]) = ins_task new (take j xs)"
proof -
  from ins_n_spec[OF assms(1,2)] have
    len: "length ys = length xs" and kj: "k \<le> j" and
    nth: "\<And>m. ys ! m = (if k < m \<and> m \<le> j then xs ! (m - 1) else xs ! m)" and
    pos: "k = length (dropWhile (later target) (rev (take j xs)))"
    by auto
  have "ins_task new (take j xs) = take k (take j xs) @ [new] @ drop k (take j xs)"
    unfolding ins_task_def assms(3) pos rev_split ..
  also have "\<dots> = take (Suc j) (ys[k := new])"
  proof (rule nth_equalityI)
    show "length (take k (take j xs) @ [new] @ drop k (take j xs)) = length (take (Suc j) (ys[k := new]))"
      using assms(1) kj len by auto
  next
    fix m assume "m < length (take k (take j xs) @ [new] @ drop k (take j xs))"
    then have m: "m \<le> j" using assms(1) kj by auto
    consider "m < k" | "m = k" | "k < m" by linarith
    then show "(take k (take j xs) @ [new] @ drop k (take j xs)) ! m = take (Suc j) (ys[k := new]) ! m"
    proof cases
      case 1
      then show ?thesis using m kj assms(1) len nth by (simp add: nth_append)
    next
      case 2
      then show ?thesis using m kj assms(1) len by (simp add: nth_append)
    next
      case 3
      then obtain d where d: "m = Suc (k + d)" by (metis less_iff_Suc_add add_Suc_right)
      show ?thesis using 3 m kj assms(1) len nth d by (simp add: nth_append)
    qed
  qed
  finally show ?thesis by simp
qed

section \<open>Removal and insertion on lists\<close>

lemma set_del_id: "set (del_id tid ts) \<subseteq> set ts"
  by (induction ts) auto

lemma del_id_length:
  "length (del_id tid ts) = (if tid \<in> taskId ` set ts then length ts - 1 else length ts)"
  by (induction ts) (auto dest: length_pos_if_in_set)

lemma del_id_hit_length:
  "tid \<in> taskId ` set ts \<Longrightarrow> Suc (length (del_id tid ts)) = length ts"
  by (induction ts) auto

lemma del_id_miss: "\<forall>t \<in> set ts. taskId t \<noteq> tid \<Longrightarrow> del_id tid ts = ts"
  by (induction ts) auto

lemma del_id_append:
  "\<forall>t \<in> set A. taskId t \<noteq> tid \<Longrightarrow> del_id tid (A @ ts) = A @ del_id tid ts"
  by (induction A) auto

lemma del_id_single:
  "length (filter (\<lambda>t. taskId t = tid) ts) \<le> 1 \<Longrightarrow> \<forall>t \<in> set (del_id tid ts). taskId t \<noteq> tid"
proof (induction ts)
  case Nil
  then show ?case by simp
next
  case (Cons t ts)
  show ?case
  proof (cases "taskId t = tid")
    case True
    have "length (filter (\<lambda>t. taskId t = tid) ts) = 0" using True Cons.prems by simp
    then have "\<forall>x \<in> set ts. taskId x \<noteq> tid" by (simp add: filter_empty_conv)
    moreover have "del_id tid (t # ts) = ts" using True by simp
    ultimately show ?thesis by simp
  next
    case False
    have "length (filter (\<lambda>t. taskId t = tid) ts) \<le> 1"
      using False Cons.prems by simp
    then have "\<forall>x \<in> set (del_id tid ts). taskId x \<noteq> tid" by (rule Cons.IH)
    moreover have "del_id tid (t # ts) = t # del_id tid ts" using False by simp
    ultimately show ?thesis using False by simp
  qed
qed

lemma distinct_del_id:
  "distinct (map taskId ts) \<Longrightarrow> distinct (map taskId (del_id tid ts)) \<and> tid \<notin> taskId ` set (del_id tid ts)"
proof (induction ts)
  case Nil
  then show ?case by simp
next
  case (Cons t ts)
  then show ?case using set_del_id[of tid ts] by auto
qed

lemma ins_task_Nil [simp]: "ins_task new [] = [new]"
  by (simp add: ins_task_def)

lemma ins_task_snoc:
  "ins_task new (ts @ [t]) =
     (if later (executeTime new) t then ins_task new ts @ [t] else ts @ [t, new])"
  by (simp add: ins_task_def)

lemma ins_task_split:
  "\<exists>A B. ts = A @ B \<and> ins_task new ts = A @ new # B \<and> (\<forall>t \<in> set B. later (executeTime new) t)
     \<and> (A \<noteq> [] \<longrightarrow> \<not> later (executeTime new) (last A))"
proof (induction ts rule: rev_induct)
  case Nil
  then show ?case by simp
next
  case (snoc t ts)
  show ?case
  proof (cases "later (executeTime new) t")
    case False
    then have "ts @ [t] = (ts @ [t]) @ [] \<and> ins_task new (ts @ [t]) = (ts @ [t]) @ new # []
        \<and> (\<forall>t \<in> set []. later (executeTime new) t) \<and> \<not> later (executeTime new) (last (ts @ [t]))"
      by (simp add: ins_task_snoc)
    then show ?thesis by blast
  next
    case True
    from snoc obtain A B where ab: "ts = A @ B" "ins_task new ts = A @ new # B"
      "\<forall>t \<in> set B. later (executeTime new) t" "A \<noteq> [] \<longrightarrow> \<not> later (executeTime new) (last A)"
      by blast
    have "ins_task new (ts @ [t]) = (A @ new # B) @ [t]"
      using True ab(2) by (simp only: ins_task_snoc if_True)
    then have "ts @ [t] = A @ (B @ [t]) \<and> ins_task new (ts @ [t]) = A @ new # (B @ [t])
        \<and> (\<forall>t \<in> set (B @ [t]). later (executeTime new) t)
        \<and> (A \<noteq> [] \<longrightarrow> \<not> later (executeTime new) (last A))"
      using True ab(1,3,4) by simp
    then show ?thesis by blast
  qed
qed

lemma ins_task_same_place:
  "executeTime a = executeTime b \<Longrightarrow>
   \<exists>A B. ts = A @ B \<and> ins_task a ts = A @ a # B \<and> ins_task b ts = A @ b # B"
  by (auto simp: ins_task_def) (metis rev_append rev_rev_ident takeWhile_dropWhile_id)

lemma set_ins_task [simp]: "set (ins_task new ts) = insert new (set ts)"
  using ins_task_split[of ts new] by auto

lemma length_ins_task [simp]: "length (ins_task new ts) = Suc (length ts)"
  using ins_task_split[of ts new] by auto

lemma distinct_ins_task:
  "distinct (map taskId (ins_task new ts)) \<longleftrightarrow>
     taskId new \<notin> taskId ` set ts \<and> distinct (map taskId ts)"
proof -
  obtain A B where ab: "ts = A @ B" "ins_task new ts = A @ new # B"
    using ins_task_split[of ts new] by blast
  show ?thesis unfolding ab(2) unfolding ab(1) by auto
qed

lemma later_neq: "later target t \<Longrightarrow> executeTime t \<noteq> target"
  by (auto simp: later_def)

section \<open>The operations on the live sequence\<close>

lemma live_length: "well_formed N s \<Longrightarrow> length (live s) = taskCount s"
  by (simp add: live_def well_formed_def)

lemma live_empty: "taskCount s = 0 \<Longrightarrow> live s = []"
  by (simp add: live_def)

lemma wf_remove_loop: "well_formed N s \<Longrightarrow> well_formed N (remove_loop tid s 0)"
  using remove_loop_count_le[of 0 s tid] by (simp add: well_formed_def)

lemma wf_reuse_removal: "well_formed N s \<Longrightarrow> well_formed N (reuse_removal rid s)"
  by (simp add: reuse_removal_def wf_remove_loop)

lemma reuse_removal_live:
  "well_formed N s \<Longrightarrow> live (reuse_removal rid s) = (if rid \<noteq> 0 then del_id rid (live s) else live s)"
  using remove_loop_live[of s 0 rid] by (simp add: reuse_removal_def well_formed_def)

lemma reuse_removal_idCounter [simp]: "idCounter (reuse_removal rid s) = idCounter s"
  by (simp add: reuse_removal_def)

lemma reuse_removal_noop:
  "well_formed N s \<Longrightarrow> rid = 0 \<or> (\<forall>t \<in> set (live s). taskId t \<noteq> rid) \<Longrightarrow> reuse_removal rid s = s"
  using remove_loop_noop[of s 0 rid] by (auto simp: reuse_removal_def well_formed_def)

lemma reuse_removal_count:
  "well_formed N s \<Longrightarrow> taskCount (reuse_removal rid s) = length (live (reuse_removal rid s))"
  using live_length[OF wf_reuse_removal, of N s rid] by simp

lemma scheduleTask_full:
  "capacity N \<le> int (taskCount (reuse_removal rid s)) \<Longrightarrow>
   scheduleTask N fn pr tick delay rid s = (0, reuse_removal rid s)"
  by (simp add: scheduleTask_def reuse_removal_def Let_def)

lemma scheduleTask_ok:
  assumes wf: "well_formed N s" and free: "int (taskCount (reuse_removal rid s)) < capacity N"
  shows "fst (scheduleTask N fn pr tick delay rid s) = (if rid \<noteq> 0 then rid else idCounter s)"
    and "idCounter (snd (scheduleTask N fn pr tick delay rid s)) =
           (if rid \<noteq> 0 then idCounter s else idCounter s + 1)"
    and "taskCount (snd (scheduleTask N fn pr tick delay rid s)) = taskCount (reuse_removal rid s) + 1"
    and "length (taskList (snd (scheduleTask N fn pr tick delay rid s))) = N"
    and "live (snd (scheduleTask N fn pr tick delay rid s)) =
           ins_task (new_slot fn pr tick delay rid s) (live (reuse_removal rid s))"
    and "taskCount (reuse_removal rid s) < N"
    and "scheduler.more (snd (scheduleTask N fn pr tick delay rid s)) = scheduler.more s"
proof -
  let ?s1 = "reuse_removal rid s"
  let ?slot = "new_slot fn pr tick delay rid s"
  obtain ys k where ik: "ins_n (tick + delay) (taskList ?s1) (taskCount ?s1) = (ys, k)"
    by (cases "ins_n (tick + delay) (taskList ?s1) (taskCount ?s1)")
  have wf1: "well_formed N ?s1" using wf by (rule wf_reuse_removal)
  show lt: "taskCount ?s1 < N" using free capacity_le[of N] by simp
  then have jl: "taskCount ?s1 < length (taskList ?s1)" using wf1 by (simp add: well_formed_def)
  have loop: "insert_loop (tick + delay) (taskList ?s1) (int (taskCount ?s1) - 1) = (ys, int k - 1)"
    by (simp add: insert_loop_ins_n ik)
  have res: "scheduleTask N fn pr tick delay rid s =
        (taskId ?slot, ?s1\<lparr>taskList := ys[k := ?slot], taskCount := taskCount ?s1 + 1,
            idCounter := (if rid \<noteq> 0 then idCounter s else idCounter s + 1)\<rparr>)"
    using free loop
    by (simp add: scheduleTask_def Let_def new_slot_def reuse_removal_def[symmetric])
  from ins_n_spec[OF jl ik] have len: "length ys = length (taskList ?s1)" by simp
  show "fst (scheduleTask N fn pr tick delay rid s) = (if rid \<noteq> 0 then rid else idCounter s)"
    by (simp add: res new_slot_def)
  show "idCounter (snd (scheduleTask N fn pr tick delay rid s)) =
           (if rid \<noteq> 0 then idCounter s else idCounter s + 1)"
    by (simp add: res)
  show "taskCount (snd (scheduleTask N fn pr tick delay rid s)) = taskCount ?s1 + 1"
    by (simp add: res)
  show "length (taskList (snd (scheduleTask N fn pr tick delay rid s))) = N"
    using wf1 len by (simp add: res well_formed_def)
  show "live (snd (scheduleTask N fn pr tick delay rid s)) = ins_task ?slot (live ?s1)"
    using ins_n_live[OF jl ik, of ?slot] by (simp add: res live_def new_slot_def)
  show "scheduler.more (snd (scheduleTask N fn pr tick delay rid s)) = scheduler.more s"
    by (simp add: res reuse_removal_def)
qed

lemma scheduleTask_live:
  assumes "well_formed N s"
  shows "live (snd (scheduleTask N fn pr tick delay rid s)) =
     (if capacity N \<le> int (taskCount (reuse_removal rid s)) then live (reuse_removal rid s)
      else ins_task (new_slot fn pr tick delay rid s) (live (reuse_removal rid s)))"
  using scheduleTask_ok(5)[OF assms] by (simp add: scheduleTask_full)


lemma scheduleTask_counter:
  assumes "well_formed N s"
  shows "idCounter (snd (scheduleTask N fn pr tick delay rid s)) =
           (if rid = 0 \<and> int (taskCount s) < capacity N then idCounter s + 1 else idCounter s)"
proof (cases "int (taskCount (reuse_removal rid s)) < capacity N")
  case True
  have "rid = 0 \<Longrightarrow> reuse_removal rid s = s" by (simp add: reuse_removal_def)
  then show ?thesis using scheduleTask_ok(2)[OF assms True, of fn pr tick delay] True by auto
next
  case False
  have "rid = 0 \<Longrightarrow> reuse_removal rid s = s" by (simp add: reuse_removal_def)
  then show ?thesis using False by (auto simp: scheduleTask_full)
qed

lemma scheduleTask_counter_indep:
  "rid \<noteq> 0 \<Longrightarrow>
   scheduleTask N fn pr tick delay rid (s\<lparr>idCounter := c\<rparr>) =
     (fst (scheduleTask N fn pr tick delay rid s),
      (snd (scheduleTask N fn pr tick delay rid s))\<lparr>idCounter := c\<rparr>)"
  by (simp add: scheduleTask_def Let_def remove_loop_counter_indep split: prod.splits)

lemma wf_scheduleTask:
  assumes "well_formed N s"
  shows "well_formed N (snd (scheduleTask N fn pr tick delay rid s))"
proof (cases "capacity N \<le> int (taskCount (reuse_removal rid s))")
  case True
  then show ?thesis using assms by (simp add: scheduleTask_full wf_reuse_removal)
next
  case False
  then have free: "int (taskCount (reuse_removal rid s)) < capacity N" by simp
  show ?thesis using scheduleTask_ok(3,4,6)[OF assms free] by (simp add: well_formed_def)
qed

lemma wf_unscheduleTask: "well_formed N s \<Longrightarrow> well_formed N (unscheduleTask tid s)"
  by (simp add: unscheduleTask_def wf_remove_loop)

lemma unscheduleTask_live: "well_formed N s \<Longrightarrow> live (unscheduleTask tid s) = del_id tid (live s)"
  using remove_loop_live[of s 0 tid] by (simp add: unscheduleTask_def well_formed_def)

lemma unscheduleTask_idCounter [simp]: "idCounter (unscheduleTask tid s) = idCounter s"
  by (simp add: unscheduleTask_def)

lemma pop_live:
  assumes "taskCount s \<noteq> 0" "taskCount s \<le> length (taskList s)"
  shows "live (s\<lparr>taskList := shift_left (taskList s) 1 (taskCount s),
                 taskCount := taskCount s - 1\<rparr>) = tl (live s)"
  using shift_left_take[of 0 "taskCount s" "taskList s"] assms
  by (simp add: live_def drop_Suc)

lemma wf_pop_head: "well_formed N s \<Longrightarrow> well_formed N (pop_head s)"
  by (auto simp: well_formed_def pop_head_def)

lemma pop_head_live: "well_formed N s \<Longrightarrow> taskCount s \<noteq> 0 \<Longrightarrow> live (pop_head s) = tl (live s)"
  using pop_live[of s] by (simp add: pop_head_def well_formed_def)

lemma pop_head_idCounter [simp]: "idCounter (pop_head s) = idCounter s"
  by (simp add: pop_head_def)

section \<open>The drain loop\<close>

lemma update_empty: "taskCount s = 0 \<Longrightarrow> update cb now s = Some ([], s)"
  unfolding update_def by (subst update_loop.simps) simp



text \<open>
  With callbacks that leave the scheduler alone the loop terminates, having fired the
  longest run of due tasks at the head.
\<close>

lemma update_loop_quiet:
  "taskCount s = n \<Longrightarrow> n \<le> length (taskList s) \<Longrightarrow>
   \<exists>s'. update_loop quiet now fired s = Some (fired @ takeWhile (due now) (live s), s') \<and>
        live s' = dropWhile (due now) (live s) \<and> idCounter s' = idCounter s \<and>
        length (taskList s') = length (taskList s) \<and> taskCount s' \<le> taskCount s"
proof (induction n arbitrary: s fired)
  case 0
  then show ?case by (subst update_loop.simps) (simp add: live_def)
next
  case (Suc n)
  let ?h = "taskList s ! 0"
  let ?s1 = "s\<lparr>taskList := shift_left (taskList s) 1 (taskCount s), taskCount := taskCount s - 1\<rparr>"
  have ne: "taskCount s \<noteq> 0" using Suc.prems by simp
  have lv: "live s = ?h # live ?s1"
  proof -
    have "live s \<noteq> []" using Suc.prems by (auto simp: live_def)
    moreover have "hd (live s) = ?h" using Suc.prems by (cases "taskList s") (auto simp: live_def)
    moreover have "tl (live s) = live ?s1" using pop_live[OF ne] Suc.prems by simp
    ultimately show ?thesis by (metis list.collapse)
  qed
  show ?case
  proof (cases "due now ?h")
    case False
    then show ?thesis
      by (subst update_loop.simps) (simp add: ne lv due_def)
  next
    case True
    show ?thesis
    proof (cases "n = 0")
      case z: True
      then have "live ?s1 = []" using Suc.prems by (simp add: live_def)
      then show ?thesis using True z Suc.prems
        by (subst update_loop.simps) (simp add: ne lv due_def quiet_def Let_def)
    next
      case nz: False
      have c1: "taskCount ?s1 = n" "n \<le> length (taskList ?s1)" using Suc.prems by simp_all
      from Suc.IH[OF c1, of "fired @ [?h]"] obtain s' where
        s': "update_loop quiet now (fired @ [?h]) ?s1 =
               Some ((fired @ [?h]) @ takeWhile (due now) (live ?s1), s')"
          "live s' = dropWhile (due now) (live ?s1)" "idCounter s' = idCounter ?s1"
          "length (taskList s') = length (taskList ?s1)" "taskCount s' \<le> taskCount ?s1"
        by blast
      have "update_loop quiet now fired s = update_loop quiet now (fired @ [?h]) ?s1"
        using True nz Suc.prems
        by (subst update_loop.simps) (simp add: ne due_def quiet_def Let_def)
      then show ?thesis using s' True lv by auto
    qed
  qed
qed

lemma update_quiet:
  assumes "well_formed N s"
  shows "\<exists>s'. update quiet now s = Some (takeWhile (due now) (live s), s') \<and>
        live s' = dropWhile (due now) (live s) \<and> idCounter s' = idCounter s \<and> well_formed N s'"
  using update_loop_quiet[of s "taskCount s" now "[]"] assms
  by (auto simp: update_def well_formed_def)

text \<open>
  Whatever the callbacks do: a property kept by the removal of the head and by every
  callback holds when \<^verbatim>\<open>update\<close> returns.
\<close>

lemma update_loop_invariant:
  assumes run: "update_loop cb now fired s = Some r"
    and cbP: "\<And>fn pr s. P s \<Longrightarrow> P (cb fn pr s)"
    and popP: "\<And>s. P s \<Longrightarrow> taskCount s \<noteq> 0 \<Longrightarrow> P (pop_head s)"
    and init: "P s"
  shows "P (snd r)"
proof -
  have "(\<forall>fn pr s. P s \<longrightarrow> P (cb fn pr s)) \<longrightarrow> P s \<longrightarrow> P (snd r)"
  proof (rule update_loop.raw_induct
      [where P = "\<lambda>cb now fired s r. (\<forall>fn pr s. P s \<longrightarrow> P (cb fn pr s)) \<longrightarrow> P s \<longrightarrow> P (snd r)",
        OF _ run])
    fix loop cb now fired s r
    assume 1: "\<And>c n f t y. loop c n f t = Some y \<Longrightarrow>
                 (\<forall>fn pr s. P s \<longrightarrow> P (c fn pr s)) \<longrightarrow> P t \<longrightarrow> P (snd y)"
      "(if taskCount s = 0 then Some (fired, s)
        else if sint (now - executeTime (taskList s ! 0)) < 0 then Some (fired, s)
        else let task = taskList s ! 0;
                 s1 = s\<lparr>taskList := shift_left (taskList s) 1 (taskCount s),
                        taskCount := taskCount s - 1\<rparr>;
                 task_count = taskCount s1;
                 s2 = cb (func task) (param task) s1
             in if task_count = 0 then Some (fired @ [task], s2)
                else loop cb now (fired @ [task]) s2) = Some r"
    let ?t = "taskList s ! 0"
    let ?s2 = "cb (func ?t) (param ?t) (pop_head s)"
    show "(\<forall>fn pr s. P s \<longrightarrow> P (cb fn pr s)) \<longrightarrow> P s \<longrightarrow> P (snd r)"
    proof (intro impI)
      assume c: "\<forall>fn pr s. P s \<longrightarrow> P (cb fn pr s)" and p: "P s"
      consider (stop) "taskCount s = 0 \<or> sint (now - executeTime ?t) < 0"
        | (last) "taskCount s \<noteq> 0" "\<not> sint (now - executeTime ?t) < 0" "taskCount s - 1 = 0"
        | (more) "taskCount s \<noteq> 0" "\<not> sint (now - executeTime ?t) < 0" "taskCount s - 1 \<noteq> 0"
        by blast
      then show "P (snd r)"
      proof cases
        case stop
        then have "r = (fired, s)" using 1(2) by (simp split: if_splits)
        with p show ?thesis by simp
      next
        case last
        then have "r = (fired @ [?t], ?s2)" using 1(2) by (simp add: pop_head_def Let_def)
        moreover have "P (pop_head s)" using popP[OF p last(1)] .
        ultimately show ?thesis using c by simp
      next
        case more
        then have "loop cb now (fired @ [?t]) ?s2 = Some r" using 1(2) by (simp add: pop_head_def Let_def)
        moreover have "P (pop_head s)" using popP[OF p more(1)] .
        then have "P ?s2" using c by simp
        ultimately show ?thesis using 1(1) c by blast
      qed
    qed
  qed
  with cbP init show ?thesis by simp
qed

section \<open>Order of the table\<close>

lemma wrap_sorted_nth:
  "wrap_sorted ts \<longleftrightarrow>
   (\<forall>i. Suc i < length ts \<longrightarrow> 0 \<le> sint (executeTime (ts ! Suc i) - executeTime (ts ! i)))"
proof (induction ts rule: wrap_sorted.induct)
  case (3 a b ts)
  show ?case
  proof
    assume l: "wrap_sorted (a # b # ts)"
    show "\<forall>i. Suc i < length (a # b # ts) \<longrightarrow>
        0 \<le> sint (executeTime ((a # b # ts) ! Suc i) - executeTime ((a # b # ts) ! i))"
    proof (intro allI impI)
      fix i assume "Suc i < length (a # b # ts)"
      then show "0 \<le> sint (executeTime ((a # b # ts) ! Suc i) - executeTime ((a # b # ts) ! i))"
        using l 3 by (cases i) auto
    qed
  next
    assume r: "\<forall>i. Suc i < length (a # b # ts) \<longrightarrow>
        0 \<le> sint (executeTime ((a # b # ts) ! Suc i) - executeTime ((a # b # ts) ! i))"
    from r[rule_format, of 0] have "0 \<le> sint (executeTime b - executeTime a)" by simp
    moreover have "\<forall>i. Suc i < length (b # ts) \<longrightarrow>
        0 \<le> sint (executeTime ((b # ts) ! Suc i) - executeTime ((b # ts) ! i))"
      using r[rule_format, of "Suc _"] by simp
    ultimately show "wrap_sorted (a # b # ts)" using 3 by simp
  qed
qed simp_all

lemma in_window_wrap_sorted: "in_window base ts \<Longrightarrow> wrap_sorted ts"
proof (induction ts rule: wrap_sorted.induct)
  case (3 a b ts)
  then have w: "offs base a < 2 ^ 31" "offs base b < 2 ^ 31" "offs base a \<le> offs base b"
    and rest: "in_window base (b # ts)"
    by (auto simp: in_window_def)
  have "sint (executeTime b - executeTime a) = int (offs base b) - int (offs base a)"
    using window_sint[of "executeTime a" base "executeTime b"] w by (simp only: offs_def)
  then show ?case using w 3(1)[OF rest] by simp
qed simp_all

lemma in_window_later:
  assumes "offs base new < 2 ^ 31" "offs base t < 2 ^ 31"
  shows "later (executeTime new) t \<longleftrightarrow> offs base new < offs base t"
proof -
  have "sint (executeTime new - executeTime t) = int (offs base new) - int (offs base t)"
    using window_sint[of "executeTime t" base "executeTime new"] assms
    by (simp only: offs_def)
  then show ?thesis by (simp add: later_def)
qed

lemma in_window_snoc:
  "in_window base (ts @ [t]) \<longleftrightarrow>
     in_window base ts \<and> offs base t < 2 ^ 31 \<and> (\<forall>x \<in> set ts. offs base x \<le> offs base t)"
  by (auto simp: in_window_def sorted_append)

lemma in_window_Cons:
  "in_window base (t # ts) \<longleftrightarrow>
     in_window base ts \<and> offs base t < 2 ^ 31 \<and> (\<forall>x \<in> set ts. offs base t \<le> offs base x)"
  by (auto simp: in_window_def)

lemma in_window_ins_task:
  "in_window base ts \<Longrightarrow> offs base new < 2 ^ 31 \<Longrightarrow> in_window base (ins_task new ts)"
proof (induction ts rule: rev_induct)
  case Nil
  then show ?case by (simp add: in_window_def)
next
  case (snoc t ts)
  from snoc.prems have p: "in_window base ts" "offs base t < 2 ^ 31"
    "\<forall>x \<in> set ts. offs base x \<le> offs base t"
    by (simp_all add: in_window_snoc)
  show ?case
  proof (cases "later (executeTime new) t")
    case True
    then have "offs base new < offs base t" using in_window_later snoc.prems(2) p(2) by blast
    then show ?thesis using True p snoc.IH[OF p(1) snoc.prems(2)]
      by (auto simp: ins_task_snoc in_window_snoc)
  next
    case False
    then have "offs base t \<le> offs base new" using in_window_later snoc.prems(2) p(2) by fastforce
    then have "in_window base ((ts @ [t]) @ [new])"
      using snoc.prems p by (subst in_window_snoc) auto
    then show ?thesis using False by (simp add: ins_task_snoc)
  qed
qed

lemma in_window_del_id: "in_window base ts \<Longrightarrow> in_window base (del_id tid ts)"
proof (induction ts)
  case (Cons t ts)
  then show ?case using set_del_id[of tid ts] by (auto simp: in_window_Cons)
qed simp

lemma in_window_tl: "in_window base ts \<Longrightarrow> in_window base (tl ts)"
  by (cases ts) (auto simp: in_window_Cons)

lemma window_inv_scheduleTask:
  assumes "window_inv N base s" "unat (tick + delay - base) < 2 ^ 31"
  shows "window_inv N base (snd (scheduleTask N fn pr tick delay rid s))"
proof -
  have wf: "well_formed N s" and w: "in_window base (live s)" using assms(1) by (simp_all add: window_inv_def)
  have w1: "in_window base (live (reuse_removal rid s))"
    using w by (simp add: reuse_removal_live[OF wf] in_window_del_id)
  have "offs base (new_slot fn pr tick delay rid s) < 2 ^ 31"
    using assms(2) by (simp add: offs_def new_slot_def)
  then have "in_window base (ins_task (new_slot fn pr tick delay rid s) (live (reuse_removal rid s)))"
    using w1 by (rule in_window_ins_task[rotated])
  then show ?thesis using w1 wf by (simp add: window_inv_def wf_scheduleTask scheduleTask_live)
qed

lemma window_inv_unscheduleTask:
  "window_inv N base s \<Longrightarrow> window_inv N base (unscheduleTask tid s)"
  using unscheduleTask_live[of N s tid]
  by (auto simp: window_inv_def wf_unscheduleTask in_window_del_id)

lemma window_inv_pop_head:
  "window_inv N base s \<Longrightarrow> taskCount s \<noteq> 0 \<Longrightarrow> window_inv N base (pop_head s)"
  using pop_head_live[of N s]
  by (auto simp: window_inv_def wf_pop_head in_window_tl)

lemma window_inv_update:
  assumes "update cb now s = Some r" "window_inv N base s"
    and "\<And>fn pr s. window_inv N base s \<Longrightarrow> window_inv N base (cb fn pr s)"
  shows "window_inv N base (snd r)"
proof (rule update_loop_invariant[of cb now "[]" s r "window_inv N base"])
  show "update_loop cb now [] s = Some r" using assms(1) by (simp add: update_def)
  show "window_inv N base (cb fn pr s)" if "window_inv N base s" for fn pr s
    using that by (rule assms(3))
  show "window_inv N base (pop_head s)" if "window_inv N base s" "taskCount s \<noteq> 0" for s
    using that by (rule window_inv_pop_head)
  show "window_inv N base s" by (rule assms(2))
qed

lemma due_first_filter:
  "due_first now ts \<Longrightarrow>
   takeWhile (due now) ts = filter (due now) ts \<and>
   dropWhile (due now) ts = filter (\<lambda>t. \<not> due now t) ts"
proof (induction ts)
  case Nil
  then show ?case by simp
next
  case (Cons t ts)
  show ?case
  proof (cases "due now t")
    case True
    then show ?thesis using Cons by (simp add: due_first_def)
  next
    case False
    then have "list_all (\<lambda>t. \<not> due now t) (t # ts)" using Cons.prems by (simp add: due_first_def)
    then have "filter (due now) (t # ts) = [] \<and> filter (\<lambda>t. \<not> due now t) (t # ts) = t # ts"
      by (auto simp: list_all_iff filter_empty_conv filter_id_conv)
    then show ?thesis using False by simp
  qed
qed

lemma in_window_due:
  assumes "unat (now - base) < 2 ^ 31" "offs base t < 2 ^ 31"
  shows "due now t \<longleftrightarrow> offs base t \<le> unat (now - base)"
proof -
  define n where "n = unat (now - base)"
  have "sint (now - executeTime t) = int n - int (offs base t)"
    using window_sint[of "executeTime t" base now] assms by (simp only: offs_def n_def)
  then have "due now t \<longleftrightarrow> offs base t \<le> n" by (simp add: due_def not_less)
  then show ?thesis by (simp only: n_def)
qed

lemma in_window_due_first:
  "in_window base ts \<Longrightarrow> unat (now - base) < 2 ^ 31 \<Longrightarrow> due_first now ts"
proof (induction ts)
  case Nil
  then show ?case by (simp add: due_first_def)
next
  case (Cons t ts)
  from Cons.prems(1) have p: "in_window base ts" "offs base t < 2 ^ 31"
    "\<forall>x \<in> set ts. offs base t \<le> offs base x" "\<forall>x \<in> set (t # ts). offs base x < 2 ^ 31"
    by (auto simp: in_window_Cons in_window_def list_all_iff)
  show ?case
  proof (cases "due now t")
    case True
    then show ?thesis using Cons.IH[OF p(1) Cons.prems(2)] by (simp add: due_first_def)
  next
    case False
    then have "unat (now - base) < offs base t" using in_window_due[OF Cons.prems(2) p(2)] by simp
    then have "\<forall>x \<in> set (t # ts). \<not> due now x"
      using p(3,4) in_window_due[OF Cons.prems(2)] by fastforce
    then show ?thesis using False by (simp add: due_first_def list_all_iff)
  qed
qed

section \<open>Identifiers\<close>

lemma ids_ok_reuse_removal:
  assumes "well_formed N s" "ids_ok s"
  shows "ids_ok (reuse_removal rid s)"
    and "rid \<noteq> 0 \<Longrightarrow> rid \<notin> taskId ` set (live (reuse_removal rid s))"
proof -
  have lv: "live (reuse_removal rid s) = (if rid \<noteq> 0 then del_id rid (live s) else live s)"
    using assms(1) by (rule reuse_removal_live)
  have d: "distinct (map taskId (live s))" using assms(2) by (simp add: ids_ok_def)
  show "ids_ok (reuse_removal rid s)"
    using assms(2) distinct_del_id[OF d, of rid] set_del_id[of rid "live s"]
    by (auto simp: ids_ok_def lv list_all_iff)
  show "rid \<noteq> 0 \<Longrightarrow> rid \<notin> taskId ` set (live (reuse_removal rid s))"
    using distinct_del_id[OF d, of rid] by (simp add: lv)
qed

lemma ids_ok_scheduleTask:
  assumes wf: "well_formed N s" and ok: "ids_ok s"
    and arg: "(rid = 0 \<and> idCounter s \<noteq> - 1) \<or> (rid \<noteq> 0 \<and> rid < idCounter s)"
  shows "ids_ok (snd (scheduleTask N fn pr tick delay rid s))"
proof (cases "capacity N \<le> int (taskCount (reuse_removal rid s))")
  case True
  then show ?thesis using ids_ok_reuse_removal(1)[OF wf ok] by (simp add: scheduleTask_full)
next
  case False
  then have free: "int (taskCount (reuse_removal rid s)) < capacity N" by simp
  let ?s1 = "reuse_removal rid s"
  let ?s' = "snd (scheduleTask N fn pr tick delay rid s)"
  note r = scheduleTask_ok(1-5)[OF wf free, of fn pr tick delay]
  have ok1: "ids_ok ?s1" using ids_ok_reuse_removal(1)[OF wf ok] .
  then have c0: "idCounter s \<noteq> 0" and d1: "distinct (map taskId (live ?s1))"
    and b1: "\<forall>t \<in> set (live ?s1). taskId t \<noteq> 0 \<and> taskId t < idCounter s"
    by (auto simp: ids_ok_def list_all_iff)
  show ?thesis
  proof (cases "rid = 0")
    case True
    then have nw: "idCounter s \<noteq> - 1" using arg by simp
    have fresh: "idCounter s \<notin> taskId ` set (live ?s1)" using b1 by auto
    have "\<forall>t \<in> set (live ?s1). taskId t < idCounter s + 1"
      using b1 word_less_succ[OF nw] by fastforce
    moreover have "idCounter s < idCounter s + 1" using word_less_succ[OF nw] by simp
    ultimately show ?thesis
      using True r(2,5) c0 d1 b1 fresh word_succ_nonzero[OF nw]
      by (auto simp: ids_ok_def list_all_iff distinct_ins_task new_slot_def)
  next
    case False
    then have lt: "rid < idCounter s" using arg by simp
    have "rid \<notin> taskId ` set (live ?s1)" using ids_ok_reuse_removal(2)[OF wf ok False] .
    then show ?thesis
      using False r(2,5) c0 d1 b1 lt
      by (auto simp: ids_ok_def list_all_iff distinct_ins_task new_slot_def)
  qed
qed

lemma ids_ok_unscheduleTask:
  assumes "well_formed N s" "ids_ok s"
  shows "ids_ok (unscheduleTask tid s)"
proof -
  have d: "distinct (map taskId (live s))" using assms(2) by (simp add: ids_ok_def)
  show ?thesis
    using assms(2) distinct_del_id[OF d, of tid] set_del_id[of tid "live s"]
    by (auto simp: ids_ok_def unscheduleTask_live[OF assms(1)] list_all_iff)
qed

lemma ids_ok_pop_head:
  assumes "well_formed N s" "ids_ok s" "taskCount s \<noteq> 0"
  shows "ids_ok (pop_head s)"
proof -
  have "live (pop_head s) = tl (live s)" using assms(1,3) by (rule pop_head_live)
  then show ?thesis using assms(2)
    by (cases "live s") (auto simp: ids_ok_def list_all_iff)
qed

lemma ids_ok_update:
  assumes r: "update cb now s = Some r" and wf: "well_formed N s" and ok: "ids_ok s"
    and cb: "\<And>fn pr s. well_formed N s \<and> ids_ok s \<Longrightarrow> well_formed N (cb fn pr s) \<and> ids_ok (cb fn pr s)"
  shows "well_formed N (snd r) \<and> ids_ok (snd r)"
proof (rule update_loop_invariant[of cb now "[]" s r "\<lambda>s. well_formed N s \<and> ids_ok s"])
  show "update_loop cb now [] s = Some r" using r by (simp add: update_def)
  show "well_formed N (cb fn pr s) \<and> ids_ok (cb fn pr s)" if "well_formed N s \<and> ids_ok s" for fn pr s
    using that by (rule cb)
  show "well_formed N (pop_head s) \<and> ids_ok (pop_head s)"
    if "well_formed N s \<and> ids_ok s" "taskCount s \<noteq> 0" for s
    using that wf_pop_head ids_ok_pop_head by blast
  show "well_formed N s \<and> ids_ok s" using wf ok by simp
qed

lemma churn_step:
  "churn \<lparr>taskList = [t, e], taskCount = 0, idCounter = c\<rparr> =
     \<lparr>taskList = [\<lparr>executeTime = 0, func = 1, param = 0, taskId = c\<rparr>, e],
      taskCount = 0, idCounter = c + 1\<rparr>"
  by (simp add: churn_def scheduleTask_def unscheduleTask_def Let_def capacity_def
      insert_loop.simps remove_loop.simps shift_left.simps)

lemma churn_funpow:
  "(churn ^^ Suc k) (initScheduler 2) =
     \<lparr>taskList = [\<lparr>executeTime = 0, func = 1, param = 0, taskId = of_nat (Suc k)\<rparr>, emptyTask],
      taskCount = 0, idCounter = of_nat (Suc k) + 1\<rparr>"
proof (induction k)
  case 0
  show ?case using churn_step[of emptyTask emptyTask 1]
    by (simp add: initScheduler_def numeral_2_eq_2)
next
  case (Suc k)
  have "(churn ^^ Suc (Suc k)) (initScheduler 2) = churn ((churn ^^ Suc k) (initScheduler 2))"
    by simp
  also have "\<dots> = churn \<lparr>taskList = [\<lparr>executeTime = 0, func = 1, param = 0, taskId = of_nat (Suc k)\<rparr>, emptyTask],
      taskCount = 0, idCounter = of_nat (Suc k) + 1\<rparr>"
    by (simp only: Suc)
  also have "\<dots> = \<lparr>taskList = [\<lparr>executeTime = 0, func = 1, param = 0, taskId = of_nat (Suc k) + 1\<rparr>, emptyTask],
      taskCount = 0, idCounter = of_nat (Suc k) + 1 + 1\<rparr>"
    by (rule churn_step)
  finally show ?case by (simp add: add.commute)
qed

text \<open>
  The identity counter reaches 0: \<open>2 ^ 32 - 1\<close> rounds of scheduling a fresh task and
  unscheduling it lead from the initial state to \<open>wrapped_counter\<close>.
\<close>

lemma counter_wrap_reachable:
  "(churn ^^ (2 ^ 32 - 1)) (initScheduler 2) = wrapped_counter"
proof -
  have n: "(2 ^ 32 - 1 :: nat) = Suc (2 ^ 32 - 2)" by simp
  have w: "(of_nat (Suc (2 ^ 32 - 2)) :: u32) = - 1" by simp
  show ?thesis unfolding n churn_funpow w by (simp add: wrapped_counter_def)
qed

text \<open>
  \<^verbatim>\<open>update\<close> itself never touches the identity counter.
\<close>

lemma update_keeps_counter:
  assumes r: "update cb now s = Some r"
    and cb: "\<And>fn pr s0. idCounter (cb fn pr s0) = idCounter s0"
  shows "idCounter (snd r) = idCounter s"
proof (rule update_loop_invariant[of cb now "[]" s r "\<lambda>t. idCounter t = idCounter s"])
  show "update_loop cb now [] s = Some r" using r by (simp add: update_def)
  show "idCounter (cb fn pr t) = idCounter s" if "idCounter t = idCounter s" for fn pr t
    using that cb by simp
  show "idCounter (pop_head t) = idCounter s" if "idCounter t = idCounter s" "taskCount t \<noteq> 0" for t
    using that by simp
  show "idCounter s = idCounter s" by simp
qed

section \<open>Returning runs of the drain loop\<close>

text \<open>
  What follows holds for every callback, also one that calls back into the scheduler.
\<close>

lemma update_loop_stop:
  "taskCount s = 0 \<or> sint (now - executeTime (taskList s ! 0)) < 0 \<Longrightarrow>
   update_loop cb now F s = Some (F, s)"
  by (subst update_loop.simps) auto

lemma update_loop_last:
  "taskCount s = 1 \<Longrightarrow> \<not> sint (now - executeTime (taskList s ! 0)) < 0 \<Longrightarrow>
   update_loop cb now F s =
     Some (F @ [taskList s ! 0], cb (func (taskList s ! 0)) (param (taskList s ! 0)) (pop_head s))"
  by (subst update_loop.simps) (simp add: pop_head_def Let_def)

lemma update_loop_more:
  "1 < taskCount s \<Longrightarrow> \<not> sint (now - executeTime (taskList s ! 0)) < 0 \<Longrightarrow>
   update_loop cb now F s =
     update_loop cb now (F @ [taskList s ! 0])
       (cb (func (taskList s ! 0)) (param (taskList s ! 0)) (pop_head s))"
  by (subst update_loop.simps) (simp add: pop_head_def Let_def)

lemma update_loop_cases:
  obtains (stop) "taskCount s = 0 \<or> sint (now - executeTime (taskList s ! 0)) < 0"
  | (last) "taskCount s = 1" "\<not> sint (now - executeTime (taskList s ! 0)) < 0"
  | (more) "1 < taskCount s" "\<not> sint (now - executeTime (taskList s ! 0)) < 0"
  by (cases "taskCount s = 0"; cases "taskCount s = 1"; cases "sint (now - executeTime (taskList s ! 0)) < 0"; force)

text \<open>
  Induction over a returning run of the loop: it stops at once, or after the last task,
  or goes on from the state the callback left.
\<close>

lemma update_loop_induct [consumes 1, case_names stop last more]:
  assumes run: "update_loop cb now F s = Some r"
    and stop: "\<And>F s. taskCount s = 0 \<or> sint (now - executeTime (taskList s ! 0)) < 0 \<Longrightarrow> P F s (F, s)"
    and last: "\<And>F s. taskCount s = 1 \<Longrightarrow> \<not> sint (now - executeTime (taskList s ! 0)) < 0 \<Longrightarrow>
        P F s (F @ [taskList s ! 0],
               cb (func (taskList s ! 0)) (param (taskList s ! 0)) (pop_head s))"
    and more: "\<And>F s r. 1 < taskCount s \<Longrightarrow> \<not> sint (now - executeTime (taskList s ! 0)) < 0 \<Longrightarrow>
        update_loop cb now (F @ [taskList s ! 0])
          (cb (func (taskList s ! 0)) (param (taskList s ! 0)) (pop_head s)) = Some r \<Longrightarrow>
        P (F @ [taskList s ! 0])
          (cb (func (taskList s ! 0)) (param (taskList s ! 0)) (pop_head s)) r \<Longrightarrow>
        P F s r"
  shows "P F s r"
proof -
  let ?Q = "\<lambda>c n F s r. c = cb \<longrightarrow> n = now \<longrightarrow> update_loop cb now F s = Some r \<and> P F s r"
  have "?Q cb now F s r"
  proof (rule update_loop.raw_induct[where P = ?Q, OF _ run])
    fix loop c n F s r
    assume IH: "\<And>c' n' F' s' y. loop c' n' F' s' = Some y \<Longrightarrow>
                  c' = cb \<longrightarrow> n' = now \<longrightarrow> update_loop cb now F' s' = Some y \<and> P F' s' y"
      and body: "(if taskCount s = 0 then Some (F, s)
        else if sint (n - executeTime (taskList s ! 0)) < 0 then Some (F, s)
        else let task = taskList s ! 0;
                 s1 = s\<lparr>taskList := shift_left (taskList s) 1 (taskCount s),
                        taskCount := taskCount s - 1\<rparr>;
                 task_count = taskCount s1;
                 s2 = c (func task) (param task) s1
             in if task_count = 0 then Some (F @ [task], s2)
                else loop c n (F @ [task]) s2) = Some r"
    show "c = cb \<longrightarrow> n = now \<longrightarrow> update_loop cb now F s = Some r \<and> P F s r"
    proof (intro impI)
      assume c: "c = cb" and n: "n = now"
      let ?t = "taskList s ! 0"
      let ?s2 = "cb (func ?t) (param ?t) (pop_head s)"
      show "update_loop cb now F s = Some r \<and> P F s r"
      proof (cases rule: update_loop_cases[of s now])
        case stop
        then have "r = (F, s)" using body n by (simp split: if_splits)
        then show ?thesis using stop update_loop_stop[OF stop] assms(2)[OF stop] by simp
      next
        case last
        then have "r = (F @ [?t], ?s2)" using body c n by (simp add: pop_head_def Let_def)
        then show ?thesis using update_loop_last[OF last] assms(3)[OF last] by simp
      next
        case more
        then have "loop cb now (F @ [?t]) ?s2 = Some r"
          using body c n by (simp add: pop_head_def Let_def)
        from IH[OF this] have ih: "update_loop cb now (F @ [?t]) ?s2 = Some r"
          "P (F @ [?t]) ?s2 r" by simp_all
        show ?thesis using update_loop_more[OF more, of cb F] ih assms(4)[OF more ih] by simp
      qed
    qed
  qed
  then show ?thesis by simp
qed

lemma update_loop_acc:
  assumes "update_loop cb now F s = Some r"
  shows "\<exists>f. fst r = F @ f \<and> (\<forall>F'. update_loop cb now F' s = Some (F' @ f, snd r))"
  using assms
proof (induction rule: update_loop_induct)
  case (stop F s)
  then show ?case using update_loop_stop by fastforce
next
  case (last F s)
  then show ?case using update_loop_last by fastforce
next
  case (more F s r)
  let ?t = "taskList s ! 0"
  from more(4) obtain f where f: "fst r = (F @ [?t]) @ f"
    "\<forall>F'. update_loop cb now F'
        (cb (func ?t) (param ?t) (pop_head s)) = Some (F' @ f, snd r)" by blast
  have "\<forall>F'. update_loop cb now F' s = Some (F' @ (?t # f), snd r)"
  proof
    fix F'
    show "update_loop cb now F' s = Some (F' @ (?t # f), snd r)"
      using update_loop_more[OF more(1,2), of cb F'] f(2)[rule_format, of "F' @ [?t]"] by simp
  qed
  then show ?case using f(1) by auto
qed

lemma update_loop_prepend:
  "update_loop cb now F s = map_option (\<lambda>(f, s'). (F @ f, s')) (update_loop cb now [] s)"
proof (cases "update_loop cb now [] s")
  case None
  show ?thesis
  proof (cases "update_loop cb now F s")
    case n: None
    then show ?thesis using None by simp
  next
    case (Some r)
    from update_loop_acc[OF this] obtain f where
      "\<forall>F'. update_loop cb now F' s = Some (F' @ f, snd r)" by blast
    then have "update_loop cb now [] s = Some ([] @ f, snd r)" by blast
    then show ?thesis using None by simp
  qed
next
  case (Some r)
  from update_loop_acc[OF this] obtain f where f: "fst r = [] @ f"
    "\<forall>F'. update_loop cb now F' s = Some (F' @ f, snd r)" by blast
  have "r = (f, snd r)" using f(1) by (cases r) simp
  then show ?thesis using Some f(2)[rule_format, of F] by (metis (no_types, lifting) case_prod_conv option.simps(9))
qed

lemma update_step:
  assumes "1 < taskCount s" "\<not> sint (now - executeTime (taskList s ! 0)) < 0"
  shows "update cb now s =
     map_option (\<lambda>(f, s'). (taskList s ! 0 # f, s'))
       (update cb now (cb (func (taskList s ! 0)) (param (taskList s ! 0)) (pop_head s)))"
  unfolding update_def
  using update_loop_more[OF assms, of cb "[]"]
    update_loop_prepend[of cb now "[taskList s ! 0]"
      "cb (func (taskList s ! 0)) (param (taskList s ! 0)) (pop_head s)"]
  by simp

lemma update_fired_due:
  assumes "update_loop cb now F s = Some r" "list_all (due now) F"
  shows "list_all (due now) (fst r)"
  using assms
  by (induction rule: update_loop_induct) (auto simp: due_def)

text \<open>
  A property of the dispatched tasks and the state, kept by the removal of the head and
  by every callback, holds when the loop returns.
\<close>

lemma update_loop_invariant_log:
  assumes run: "update_loop cb now F s = Some r"
    and cbP: "\<And>F fn pr s. P (F, s) \<Longrightarrow> P (F, cb fn pr s)"
    and popP: "\<And>F s. P (F, s) \<Longrightarrow> taskCount s \<noteq> 0 \<Longrightarrow> P (F @ [taskList s ! 0], pop_head s)"
    and init: "P (F, s)"
  shows "P r"
  using run init
proof (induction rule: update_loop_induct)
  case (stop F s)
  then show ?case by simp
next
  case (last F s)
  then show ?case using cbP popP by simp
next
  case (more F s r)
  have "P (F @ [taskList s ! 0], pop_head s)" using popP[OF more(5)] more(1) by simp
  then show ?case using more(4) cbP by blast
qed

section \<open>Order of dispatch\<close>

lemma fifo_del_id: "fifo (xs @ ts) \<Longrightarrow> fifo (xs @ del_id tid ts)"
proof (induction ts arbitrary: xs)
  case Nil
  then show ?case by simp
next
  case (Cons t ts)
  show ?case
  proof (cases "taskId t = tid")
    case True
    then show ?thesis using Cons.prems by (auto simp: fifo_def sorted_wrt_append)
  next
    case False
    have "fifo ((xs @ [t]) @ del_id tid ts)" using Cons.IH[of "xs @ [t]"] Cons.prems by simp
    then show ?thesis using False by simp
  qed
qed

lemma fifo_ins_task:
  assumes "fifo (xs @ ts)" "\<forall>t \<in> set (xs @ ts). param t < param new"
  shows "fifo (xs @ ins_task new ts)"
proof -
  obtain A B where ab: "ts = A @ B" "ins_task new ts = A @ new # B"
    "\<forall>t \<in> set B. later (executeTime new) t"
    using ins_task_split[of ts new] by blast
  have "\<forall>t \<in> set B. executeTime new \<noteq> executeTime t" using ab(3) later_neq by metis
  then show ?thesis using assms unfolding ab(2) unfolding ab(1)
    by (auto simp: fifo_def sorted_wrt_append)
qed

lemma fifo_prefix: "fifo (xs @ ys) \<Longrightarrow> fifo xs"
  by (simp add: fifo_def sorted_wrt_append)

lemma live_nextStamp [simp]: "live (h\<lparr>nextStamp := n\<rparr>) = live h"
  by (simp add: live_def)

lemma well_formed_nextStamp [simp]: "well_formed N (h\<lparr>nextStamp := n\<rparr>) = well_formed N h"
  by (simp add: well_formed_def)

lemma remove_loop_nextStamp [simp]: "nextStamp (remove_loop tid h i) = nextStamp h"
  by (induction tid h i rule: remove_loop.induct) (subst remove_loop.simps, simp)

lemma scheduleTask_nextStamp [simp]:
  "nextStamp (snd (scheduleTask N fn pr tick delay rid h)) = nextStamp h"
  by (simp add: scheduleTask_def Let_def split: prod.splits)

lemma unscheduleTask_nextStamp [simp]: "nextStamp (unscheduleTask tid h) = nextStamp h"
  by (simp add: unscheduleTask_def)

lemma pop_head_nextStamp [simp]: "nextStamp (pop_head h) = nextStamp h"
  by (simp add: pop_head_def)

lemma stamp_inv_perform:
  assumes "stamp_inv N (F, h)"
  shows "stamp_inv N (F, perform N r h)"
proof (cases r)
  case (Cancel tid)
  have wf: "well_formed N h" using assms by (simp add: stamp_inv_def)
  show ?thesis
    using assms fifo_del_id[of F "live h" tid] set_del_id[of tid "live h"]
    by (auto simp: stamp_inv_def Cancel wf_unscheduleTask unscheduleTask_live[OF wf] list_all_iff)
next
  case (Arm fn tick delay rid)
  let ?h1 = "reuse_removal rid h"
  let ?h' = "snd (scheduleTask N fn (nextStamp h) tick delay rid h)"
  let ?slot = "new_slot fn (nextStamp h) tick delay rid h"
  have wf: "well_formed N h" and ff: "fifo (F @ live h)"
    and bd: "\<forall>t \<in> set (F @ live h). param t < nextStamp h"
    using assms by (simp_all add: stamp_inv_def list_all_iff)
  have lv1: "live ?h1 = (if rid \<noteq> 0 then del_id rid (live h) else live h)"
    using wf by (rule reuse_removal_live)
  have sub1: "set (live ?h1) \<subseteq> set (live h)" using set_del_id[of rid "live h"] by (simp add: lv1)
  have f1: "fifo (F @ live ?h1)" using ff fifo_del_id by (simp add: lv1)
  have lt: "\<forall>t \<in> set (F @ live ?h1). param t < param ?slot"
    using bd sub1 by (auto simp: new_slot_def)
  have wf': "well_formed N ?h'" using wf by (rule wf_scheduleTask)
  have lv': "live ?h' = (if capacity N \<le> int (taskCount ?h1) then live ?h1
                 else ins_task ?slot (live ?h1))"
    using wf by (rule scheduleTask_live)
  have f': "fifo (F @ live ?h')"
    using f1 fifo_ins_task[OF f1 lt] by (simp add: lv')
  have b': "\<forall>t \<in> set (F @ live ?h'). param t < Suc (nextStamp h)"
  proof
    fix t assume "t \<in> set (F @ live ?h')"
    then have "t \<in> set (F @ live ?h1) \<or> t = ?slot" by (auto simp: lv' split: if_splits)
    then show "param t < Suc (nextStamp h)"
      using bd sub1 by (auto simp: new_slot_def less_Suc_eq)
  qed
  show ?thesis using wf' f' b' by (simp add: stamp_inv_def Arm list_all_iff)
qed

lemma stamp_inv_fold:
  "stamp_inv N (F, h) \<Longrightarrow> stamp_inv N (F, fold (perform N) rs h)"
  by (induction rs arbitrary: h) (simp_all add: stamp_inv_perform)

lemma stamp_inv_scripted:
  "stamp_inv N (F, h) \<Longrightarrow> stamp_inv N (F, scripted N script fn pr h)"
  by (simp add: scripted_def stamp_inv_fold)

lemma stamp_inv_pop:
  assumes "stamp_inv N (F, h)" "taskCount h \<noteq> 0"
  shows "stamp_inv N (F @ [taskList h ! 0], pop_head h)"
proof -
  have wf: "well_formed N h" using assms(1) by (simp add: stamp_inv_def)
  have tl: "live (pop_head h) = tl (live h)" using wf assms(2) by (rule pop_head_live)
  have ne: "live h \<noteq> []" using assms(2) wf by (auto simp: live_def well_formed_def)
  have "hd (live h) = taskList h ! 0"
    using assms(2) wf by (cases "taskList h") (auto simp: live_def well_formed_def)
  then have "live h = taskList h ! 0 # live (pop_head h)" using ne tl by (metis list.collapse)
  then have "(F @ [taskList h ! 0]) @ live (pop_head h) = F @ live h" by simp
  then show ?thesis using assms(1) wf
    by (simp add: stamp_inv_def wf_pop_head del: append_assoc)
qed

lemma stamp_inv_update:
  assumes "update (scripted N script) now h = Some (ds, h')" "stamp_inv N (F, h)"
  shows "stamp_inv N (F @ ds, h')"
proof -
  have "update_loop (scripted N script) now F h = Some (F @ ds, h')"
    using assms(1) update_loop_prepend[of "scripted N script" now F h] by (simp add: update_def)
  then show ?thesis
    using update_loop_invariant_log[of "scripted N script" now F h "(F @ ds, h')" "stamp_inv N"]
      stamp_inv_scripted stamp_inv_pop assms(2)
    by blast
qed

lemma stamp_inv_run_call:
  assumes "run_call N script c st = Some st'" "stamp_inv N st"
  shows "stamp_inv N st'"
proof (cases st)
  case (Pair F h)
  show ?thesis
  proof (cases c)
    case (Request r)
    then show ?thesis using assms Pair stamp_inv_perform by auto
  next
    case (Drain now)
    then obtain ds h' where "update (scripted N script) now h = Some (ds, h')" "st' = (F @ ds, h')"
      using assms(1) Pair by (auto split: option.splits)
    then show ?thesis using stamp_inv_update assms(2) Pair by blast
  qed
qed

lemma stamp_inv_run_calls:
  "run_calls N script cs st = Some st' \<Longrightarrow> stamp_inv N st \<Longrightarrow> stamp_inv N st'"
proof (induction cs arbitrary: st)
  case Nil
  then show ?case by simp
next
  case (Cons c cs)
  then obtain st1 where s1: "run_call N script c st = Some st1" "run_calls N script cs st1 = Some st'"
    by (auto split: option.splits)
  from Cons.IH[OF s1(2) stamp_inv_run_call[OF s1(1) Cons.prems(2)]] show ?case .
qed

lemma stamp_inv_empty: "well_formed N h \<Longrightarrow> taskCount h = 0 \<Longrightarrow> stamp_inv N ([], h)"
  by (simp add: stamp_inv_def live_empty fifo_def)

lemma scripted_no_requests: "scripted N no_requests = quiet"
  by (intro ext) (simp add: scripted_def no_requests_def quiet_def)

lemma run_calls_quiet_total:
  "well_formed N (snd st) \<Longrightarrow> \<exists>st'. run_calls N no_requests cs st = Some st'"
proof (induction cs arbitrary: st)
  case Nil
  then show ?case by simp
next
  case (Cons c cs)
  obtain F h where st: "st = (F, h)" by (cases st)
  have wf: "well_formed N h" using Cons.prems st by simp
  have "\<exists>st1. run_call N no_requests c st = Some st1 \<and> well_formed N (snd st1)"
  proof (cases c)
    case (Request r)
    have "well_formed N (perform N r h)"
      using wf by (cases r) (simp_all add: wf_scheduleTask wf_unscheduleTask)
    then show ?thesis using Request st by simp
  next
    case (Drain now)
    from update_quiet[OF wf, of now] obtain h' where
      "update quiet now h = Some (takeWhile (due now) (live h), h')" "well_formed N h'" by blast
    then show ?thesis using Drain st by (simp add: scripted_no_requests)
  qed
  then obtain st1 where s1: "run_call N no_requests c st = Some st1" "well_formed N (snd st1)"
    by blast
  from Cons.IH[OF s1(2)] show ?case using s1(1) by simp
qed

text \<open>
  A batch of tasks with one deadline, scheduled on an empty table and drained.
\<close>

lemma ins_task_behind:
  "\<forall>t \<in> set ts. \<not> later (executeTime new) t \<Longrightarrow> ins_task new ts = ts @ [new]"
proof (induction ts rule: rev_induct)
  case Nil
  then show ?case by simp
next
  case (snoc t ts)
  then show ?case by (simp add: ins_task_snoc)
qed

lemma run_calls_append:
  "run_calls N script (xs @ ys) st =
     (case run_calls N script xs st of None \<Rightarrow> None | Some st' \<Rightarrow> run_calls N script ys st')"
  by (induction xs arbitrary: st) (auto split: option.splits)

lemma run_calls_requests:
  "run_calls N script (replicate k (Request r)) (F, h) = Some (F, (perform N r ^^ k) h)"
proof (induction k arbitrary: h)
  case 0
  then show ?case by simp
next
  case (Suc k)
  have "run_calls N script (replicate (Suc k) (Request r)) (F, h) =
        run_calls N script (replicate k (Request r)) (F, perform N r h)" by simp
  also have "\<dots> = Some (F, (perform N r ^^ k) (perform N r h))" by (rule Suc)
  finally show ?case by (simp add: funpow_swap1)
qed

lemma arm_batch:
  assumes wf: "well_formed N h" and e: "taskCount h = 0"
  shows "int k \<le> capacity N \<Longrightarrow>
     well_formed N ((perform N (Arm fn tick delay 0) ^^ k) h) \<and>
     taskCount ((perform N (Arm fn tick delay 0) ^^ k) h) = k \<and>
     nextStamp ((perform N (Arm fn tick delay 0) ^^ k) h) = nextStamp h + k \<and>
     idCounter ((perform N (Arm fn tick delay 0) ^^ k) h) = idCounter h + of_nat k \<and>
     live ((perform N (Arm fn tick delay 0) ^^ k) h) =
       map (batch_slot fn (tick + delay) (nextStamp h) (idCounter h)) [0..<k]"
proof -
  define p where "p = perform N (Arm fn tick delay 0)"
  have pstep: "p x = (snd (scheduleTask N fn (nextStamp x) tick delay 0 x))\<lparr>nextStamp := Suc (nextStamp x)\<rparr>"
    for x by (simp add: p_def)
  have "int k \<le> capacity N \<Longrightarrow>
     well_formed N ((p ^^ k) h) \<and> taskCount ((p ^^ k) h) = k \<and>
     nextStamp ((p ^^ k) h) = nextStamp h + k \<and>
     idCounter ((p ^^ k) h) = idCounter h + of_nat k \<and>
     live ((p ^^ k) h) = map (batch_slot fn (tick + delay) (nextStamp h) (idCounter h)) [0..<k]"
  proof (induction k)
    case 0
    then show ?case using wf e by (simp add: live_empty)
  next
    case (Suc k)
    let ?h = "(p ^^ k) h"
    let ?h' = "snd (scheduleTask N fn (nextStamp ?h) tick delay 0 ?h)"
    from Suc have ih: "well_formed N ?h" "taskCount ?h = k" "nextStamp ?h = nextStamp h + k"
      "idCounter ?h = idCounter h + of_nat k"
      "live ?h = map (batch_slot fn (tick + delay) (nextStamp h) (idCounter h)) [0..<k]"
      by simp_all
    have rr: "reuse_removal 0 ?h = ?h" by (simp add: reuse_removal_def)
    have free: "int (taskCount (reuse_removal 0 ?h)) < capacity N"
      using Suc.prems ih(2) by (simp add: rr)
    note ok = scheduleTask_ok(2-5)[OF ih(1) free, of fn "nextStamp ?h" tick delay, unfolded rr]
    have slot: "new_slot fn (nextStamp ?h) tick delay 0 ?h =
        batch_slot fn (tick + delay) (nextStamp h) (idCounter h) k"
      by (simp add: new_slot_def batch_slot_def ih)
    have "\<forall>t \<in> set (live ?h). \<not> later (tick + delay) t"
      by (auto simp: ih(5) batch_slot_def later_def)
    then have ins: "ins_task (batch_slot fn (tick + delay) (nextStamp h) (idCounter h) k) (live ?h) =
        live ?h @ [batch_slot fn (tick + delay) (nextStamp h) (idCounter h) k]"
      by (intro ins_task_behind) (simp add: batch_slot_def)
    have step: "(p ^^ Suc k) h = ?h'\<lparr>nextStamp := Suc (nextStamp ?h)\<rparr>"
      by (simp add: pstep)
    have w: "well_formed N ?h'" using ih(1) by (rule wf_scheduleTask)
    have "well_formed N ((p ^^ Suc k) h)" unfolding step using w by simp
    moreover have "taskCount ((p ^^ Suc k) h) = Suc k" unfolding step using ok(2) ih(2) by simp
    moreover have "nextStamp ((p ^^ Suc k) h) = nextStamp h + Suc k" unfolding step using ih(3) by simp
    moreover have "idCounter ((p ^^ Suc k) h) = idCounter h + of_nat (Suc k)"
      unfolding step using ok(1) ih(4) by simp
    moreover have "live ((p ^^ Suc k) h) =
        map (batch_slot fn (tick + delay) (nextStamp h) (idCounter h)) [0..<Suc k]"
      unfolding step using ok(4) ins ih(5) by (simp add: slot)
    ultimately show ?case by blast
  qed
  then show "int k \<le> capacity N \<Longrightarrow>
     well_formed N ((perform N (Arm fn tick delay 0) ^^ k) h) \<and>
     taskCount ((perform N (Arm fn tick delay 0) ^^ k) h) = k \<and>
     nextStamp ((perform N (Arm fn tick delay 0) ^^ k) h) = nextStamp h + k \<and>
     idCounter ((perform N (Arm fn tick delay 0) ^^ k) h) = idCounter h + of_nat k \<and>
     live ((perform N (Arm fn tick delay 0) ^^ k) h) =
       map (batch_slot fn (tick + delay) (nextStamp h) (idCounter h)) [0..<k]"
    unfolding p_def .
qed

lemma update_quiet_all_due:
  assumes "well_formed N h" "\<forall>t \<in> set (live h). due now t"
  shows "\<exists>h'. update quiet now h = Some (live h, h') \<and> live h' = []"
proof -
  have "takeWhile (due now) (live h) = live h" "dropWhile (due now) (live h) = []"
    using assms(2) by (simp_all add: takeWhile_eq_all_conv)
  then show ?thesis using update_quiet[OF assms(1), of now] by auto
qed

lemma batch_fires_in_order:
  assumes wf: "well_formed N h" and e: "taskCount h = 0"
    and n: "int n \<le> capacity N" and d: "0 \<le> sint (now - (tick + delay))"
  shows "\<exists>h'. run_calls N no_requests (replicate n (Request (Arm fn tick delay 0)) @ [Drain now]) ([], h) =
           Some (map (batch_slot fn (tick + delay) (nextStamp h) (idCounter h)) [0..<n], h') \<and>
         live h' = []"
proof -
  let ?h = "(perform N (Arm fn tick delay 0) ^^ n) h"
  from arm_batch[OF wf e n, of fn tick delay] have b: "well_formed N ?h"
    "live ?h = map (batch_slot fn (tick + delay) (nextStamp h) (idCounter h)) [0..<n]"
    by simp_all
  have "\<forall>t \<in> set (live ?h). due now t" using d by (auto simp: b(2) batch_slot_def due_def)
  from update_quiet_all_due[OF b(1) this] obtain h' where
    u: "update quiet now ?h = Some (live ?h, h')" "live h' = []" by blast
  have "run_calls N no_requests (replicate n (Request (Arm fn tick delay 0)) @ [Drain now]) ([], h) =
        Some (live ?h, h')"
    by (simp add: run_calls_append run_calls_requests scripted_no_requests u(1))
  then show ?thesis using u(2) b(2) by simp
qed

section \<open>Dueness and elapsed ticks\<close>





section \<open>The claims\<close>

subsection \<open>C1: what one update dispatches\<close>

text \<open>
  Claim C1 as stated, for every scheduler state, fails.  Two tasks are scheduled at tick 0
  with delays 0 and \<open>2 ^ 31 - 1\<close>; the table is \<open>[0, 2 ^ 31 - 1]\<close>.  An \<^verbatim>\<open>update\<close> sampling
  tick \<open>2 ^ 31\<close> sees \<open>signed32(now - 0) = - 2 ^ 31 < 0\<close> at the head and returns without
  dispatching anything, although the second task has \<open>signed32(now - T) = 1 \<ge> 0\<close>.
\<close>

theorem due_task_behind_late_head_counterexample:
  "update quiet (2 ^ 31) late_table = Some ([], late_table) \<and>
   \<lparr>executeTime = 2 ^ 31 - 1, func = 1, param = 2, taskId = 2\<rparr> \<in> set (live late_table) \<and>
   0 \<le> sint ((2 ^ 31 :: u32) - (2 ^ 31 - 1))"
  by code_simp

text \<open>
  Claim C1, amended.  For every well-formed scheduler state, every sampled tick \<open>now\<close> and
  every behaviour of the callbacks, \<^verbatim>\<open>update\<close> looks at the head of the table only, one
  task at a time:
  \<^item> it returns at once, dispatching nothing, when the table is empty or the head has
    \<open>signed32(now - executeTime) < 0\<close>;
  \<^item> otherwise it removes the head (the other tasks keep their order) and invokes its
    callback; if that removal emptied the table it returns right after the callback,
    without looking at what the callback scheduled (the early exit);
  \<^item> otherwise it goes on in the same way from the state the callback left, so a task
    scheduled or unscheduled by a callback is seen or missed by the same \<^verbatim>\<open>update\<close>.

  Every task it dispatches has \<open>signed32(now - executeTime) \<ge> 0\<close>.  With callbacks that
  do not call back into the scheduler, \<^verbatim>\<open>update\<close> returns, having dispatched in table order
  exactly the longest leading run of live tasks with \<open>signed32(now - executeTime) \<ge> 0\<close>;
  the remaining tasks stay pending in their order, among them every task with
  \<open>signed32(now - executeTime) < 0\<close>.  When no due task sits behind a task that is not due,
  these are exactly the due tasks and exactly the not-due tasks; that is the case
  whenever the table is ordered within a half-range window that also holds \<open>now\<close>.
\<close>

theorem update_dispatches_from_the_head:
  assumes "well_formed N s"
  shows "(taskCount s = 0 \<or> \<not> due now (taskList s ! 0) \<longrightarrow> update cb now s = Some ([], s)) \<and>
         (taskCount s \<noteq> 0 \<longrightarrow>
            taskList s ! 0 = hd (live s) \<and> live (pop_head s) = tl (live s)) \<and>
         (taskCount s = 1 \<and> due now (taskList s ! 0) \<longrightarrow>
            update cb now s =
              Some ([taskList s ! 0],
                    cb (func (taskList s ! 0)) (param (taskList s ! 0)) (pop_head s))) \<and>
         (1 < taskCount s \<and> due now (taskList s ! 0) \<longrightarrow>
            update cb now s =
              map_option (\<lambda>(fired, s'). (taskList s ! 0 # fired, s'))
                (update cb now
                   (cb (func (taskList s ! 0)) (param (taskList s ! 0)) (pop_head s)))) \<and>
         (\<forall>fired s'. update cb now s = Some (fired, s') \<longrightarrow> list_all (due now) fired) \<and>
         (\<exists>s'. update quiet now s = Some (takeWhile (due now) (live s), s') \<and>
           live s' = dropWhile (due now) (live s) \<and>
           takeWhile (due now) (live s) @ live s' = live s \<and>
           (\<forall>t \<in> set (live s). \<not> due now t \<longrightarrow> t \<in> set (live s')) \<and>
           (due_first now (live s) \<longrightarrow>
              takeWhile (due now) (live s) = filter (due now) (live s) \<and>
              live s' = filter (\<lambda>t. \<not> due now t) (live s)) \<and>
           ((\<exists>base. in_window base (live s) \<and> unat (now - base) < 2 ^ 31) \<longrightarrow>
              due_first now (live s)))"
proof -
  let ?t = "taskList s ! 0"
  have a: "taskCount s = 0 \<or> \<not> due now ?t \<longrightarrow> update cb now s = Some ([], s)"
    using update_loop_stop[of s now cb "[]"] by (auto simp: update_def due_def)
  have b: "taskCount s \<noteq> 0 \<longrightarrow> ?t = hd (live s) \<and> live (pop_head s) = tl (live s)"
  proof
    assume ne: "taskCount s \<noteq> 0"
    have "hd (live s) = ?t"
      using ne assms by (cases "taskList s") (auto simp: live_def well_formed_def)
    then show "?t = hd (live s) \<and> live (pop_head s) = tl (live s)"
      using pop_head_live[OF assms ne] by simp
  qed
  have c: "taskCount s = 1 \<and> due now ?t \<longrightarrow>
            update cb now s = Some ([?t], cb (func ?t) (param ?t) (pop_head s))"
    using update_loop_last[of s now cb "[]"] by (auto simp: update_def due_def)
  have d: "1 < taskCount s \<and> due now ?t \<longrightarrow>
            update cb now s =
              map_option (\<lambda>(fired, s'). (?t # fired, s'))
                (update cb now (cb (func ?t) (param ?t) (pop_head s)))"
    using update_step[of s now cb] by (auto simp: due_def)
  have e: "\<forall>fired s'. update cb now s = Some (fired, s') \<longrightarrow> list_all (due now) fired"
    using update_fired_due[of cb now "[]" s] by (fastforce simp: update_def)
  have f: "\<exists>s'. update quiet now s = Some (takeWhile (due now) (live s), s') \<and>
           live s' = dropWhile (due now) (live s) \<and>
           takeWhile (due now) (live s) @ live s' = live s \<and>
           (\<forall>t \<in> set (live s). \<not> due now t \<longrightarrow> t \<in> set (live s')) \<and>
           (due_first now (live s) \<longrightarrow>
              takeWhile (due now) (live s) = filter (due now) (live s) \<and>
              live s' = filter (\<lambda>t. \<not> due now t) (live s)) \<and>
           ((\<exists>base. in_window base (live s) \<and> unat (now - base) < 2 ^ 31) \<longrightarrow>
              due_first now (live s))"
  proof -
    from update_quiet[OF assms, of now] obtain s' where
      s': "update quiet now s = Some (takeWhile (due now) (live s), s')"
          "live s' = dropWhile (due now) (live s)"
      by blast
    have "\<forall>t \<in> set (live s). \<not> due now t \<longrightarrow> t \<in> set (live s')"
    proof (intro ballI impI)
      fix t assume t: "t \<in> set (live s)" "\<not> due now t"
      have "set (live s) = set (takeWhile (due now) (live s)) \<union> set (live s')"
        unfolding s'(2) by (metis set_append takeWhile_dropWhile_id)
      moreover have "t \<notin> set (takeWhile (due now) (live s))"
        using t(2) by (auto dest: set_takeWhileD)
      ultimately show "t \<in> set (live s')" using t(1) by blast
    qed
    moreover have "due_first now (live s) \<longrightarrow>
                takeWhile (due now) (live s) = filter (due now) (live s) \<and>
                live s' = filter (\<lambda>t. \<not> due now t) (live s)"
      using due_first_filter[of now "live s"] s'(2) by simp
    moreover have "(\<exists>base. in_window base (live s) \<and> unat (now - base) < 2 ^ 31) \<longrightarrow>
                due_first now (live s)"
      using in_window_due_first by blast
    ultimately show ?thesis using s' by auto
  qed
  show ?thesis by (intro conjI) (fact a, fact b, fact c, fact d, fact e, fact f)
qed

text \<open>
  The amended C1 at concrete states.  In \<open>two_pending\<close> at tick 10 with passive
  callbacks the task due at 10 fires and the task due at 20 stays.  In \<open>one_due\<close> at tick
  10 with a callback that re-arms itself for tick 10, the removal empties the table, so
  \<^verbatim>\<open>update\<close> returns after one callback and the re-armed task, due at 10, stays pending.  In
  \<open>two_pending\<close> at tick 20 with a callback that unschedules id 1, the task with id 1, due
  at 20, is gone when the loop reads the head again and never fires.
\<close>

theorem update_dispatches_from_the_head_witness:
  "well_formed 3 two_pending \<and> due_first 10 (live two_pending) \<and>
   (\<exists>s'. update quiet 10 two_pending =
            Some ([\<lparr>executeTime = 10, func = 1, param = 2, taskId = 2\<rparr>], s') \<and>
         live s' = [\<lparr>executeTime = 20, func = 1, param = 1, taskId = 1\<rparr>]) \<and>
   well_formed 3 one_due \<and> taskCount one_due = 1 \<and> due 10 (taskList one_due ! 0) \<and>
   update (rearm 3 10) 10 one_due =
     Some ([\<lparr>executeTime = 10, func = 1, param = 1, taskId = 1\<rparr>],
           rearm 3 10 1 1 (pop_head one_due)) \<and>
   live (rearm 3 10 1 1 (pop_head one_due)) =
     [\<lparr>executeTime = 10, func = 1, param = 1, taskId = 2\<rparr>] \<and>
   1 < taskCount two_pending \<and> due 20 (taskList two_pending ! 0) \<and>
   map_option (\<lambda>(fired, s'). (fired, live s')) (update (cancel 1) 20 two_pending) =
     Some ([\<lparr>executeTime = 10, func = 1, param = 2, taskId = 2\<rparr>], [])"
proof -
  have h: "well_formed 3 two_pending" by code_simp
  have d: "due_first 10 (live two_pending)" by code_simp
  have tw: "takeWhile (due 10) (live two_pending) =
      [\<lparr>executeTime = 10, func = 1, param = 2, taskId = 2\<rparr>]" by code_simp
  have dw: "dropWhile (due 10) (live two_pending) =
      [\<lparr>executeTime = 20, func = 1, param = 1, taskId = 1\<rparr>]" by code_simp
  have q: "\<exists>s'. update quiet 10 two_pending =
            Some ([\<lparr>executeTime = 10, func = 1, param = 2, taskId = 2\<rparr>], s') \<and>
         live s' = [\<lparr>executeTime = 20, func = 1, param = 1, taskId = 1\<rparr>]"
    using update_dispatches_from_the_head[OF h, where now = 10 and cb = quiet]
    unfolding tw dw by blast
  have h1: "well_formed 3 one_due" by code_simp
  have c1: "taskCount one_due = 1" by code_simp
  have d1: "due 10 (taskList one_due ! 0)" by code_simp
  have t1: "taskList one_due ! 0 = \<lparr>executeTime = 10, func = 1, param = 1, taskId = 1\<rparr>"
    by code_simp
  have e: "update (rearm 3 10) 10 one_due =
     Some ([\<lparr>executeTime = 10, func = 1, param = 1, taskId = 1\<rparr>],
           rearm 3 10 1 1 (pop_head one_due))"
    using update_dispatches_from_the_head[OF h1, where now = 10 and cb = "rearm 3 10"] c1 d1
    by (simp add: t1)
  have l: "live (rearm 3 10 1 1 (pop_head one_due)) =
     [\<lparr>executeTime = 10, func = 1, param = 1, taskId = 2\<rparr>]" by code_simp
  have c2: "1 < taskCount two_pending" by code_simp
  have d2: "due 20 (taskList two_pending ! 0)" by code_simp
  have t2: "taskList two_pending ! 0 = \<lparr>executeTime = 10, func = 1, param = 2, taskId = 2\<rparr>"
    by code_simp
  have inner: "map_option (\<lambda>(fired, s'). (fired, live s'))
      (update (cancel 1) 20 (cancel 1 1 2 (pop_head two_pending))) = Some ([], [])"
    by code_simp
  have "update (cancel 1) 20 two_pending =
      map_option (\<lambda>(fired, s'). (taskList two_pending ! 0 # fired, s'))
        (update (cancel 1) 20
           (cancel 1 (func (taskList two_pending ! 0)) (param (taskList two_pending ! 0))
              (pop_head two_pending)))"
    using update_dispatches_from_the_head[OF h, where now = 20 and cb = "cancel 1"] c2 d2
    by blast
  then have r: "map_option (\<lambda>(fired, s'). (fired, live s')) (update (cancel 1) 20 two_pending) =
     Some ([\<lparr>executeTime = 10, func = 1, param = 2, taskId = 2\<rparr>], [])"
    using inner unfolding t2 by (auto simp: map_option_case split: option.splits)
  show ?thesis by (intro conjI) (fact h, fact d, fact q, fact h1, fact c1, fact d1, fact e,
      fact l, fact c2, fact d2, fact r)
qed

subsection \<open>C2: the table stays sorted\<close>

text \<open>
  Claim C2 as stated fails with every delay below \<open>2 ^ 31\<close>.  A task is scheduled at tick
  0 with delay 0; at tick 1, before any \<^verbatim>\<open>update\<close>, a second one is scheduled with delay
  \<open>2 ^ 31 - 1\<close>.  Its target \<open>2 ^ 31\<close> differs from the pending deadline 0 by exactly
  \<open>2 ^ 31\<close>, the insertion loop reads that as negative and shifts, and the table is
  \<open>[2 ^ 31, 0]\<close> with \<open>signed32(0 - 2 ^ 31) < 0\<close>.
\<close>

theorem half_range_insert_counterexample:
  "live boundary_table =
     [\<lparr>executeTime = 2 ^ 31, func = 1, param = 2, taskId = 2\<rparr>,
      \<lparr>executeTime = 0, func = 1, param = 1, taskId = 1\<rparr>] \<and>
   sint ((0 :: u32) - 2 ^ 31) < 0 \<and> \<not> wrap_sorted (live boundary_table) \<and>
   unat (2 ^ 31 - 1 :: u32) < 2 ^ 31"
proof -
  have "live boundary_table =
     [\<lparr>executeTime = 2 ^ 31, func = 1, param = 2, taskId = 2\<rparr>,
      \<lparr>executeTime = 0, func = 1, param = 1, taskId = 1\<rparr>]"
    by code_simp
  moreover have "sint ((0 :: u32) - 2 ^ 31) < 0" by simp
  moreover have "\<not> wrap_sorted (live boundary_table)" by code_simp
  moreover have "unat (2 ^ 31 - 1 :: u32) < 2 ^ 31" by simp
  ultimately show ?thesis by (intro conjI)
qed

text \<open>
  Claim C2, amended.  Assume a base tick such that every pending deadline lies less than
  \<open>2 ^ 31\<close> ticks after it and the live slots are ordered by that distance.  Then
  \<^verbatim>\<open>unscheduleTask\<close> and \<^verbatim>\<open>update\<close> keep this, \<^verbatim>\<open>scheduleTask\<close> keeps it when its target
  \<open>now + delay\<close> lies in the same window, and in each resulting state every adjacent pair
  of live slots satisfies \<open>signed32(taskList[i+1].executeTime - taskList[i].executeTime) \<ge> 0\<close>.
  For \<^verbatim>\<open>update\<close> this holds with callbacks that leave the scheduler alone (and then
  \<^verbatim>\<open>update\<close> returns) and, whenever \<^verbatim>\<open>update\<close> returns, with any callbacks that keep the
  window order themselves.
\<close>

theorem window_sorted_after_each_call:
  assumes "well_formed N s" and "in_window base (live s)"
  shows "(unat (tick + delay - base) < 2 ^ 31 \<longrightarrow>
            well_formed N (snd (scheduleTask N fn pr tick delay rid s)) \<and>
            in_window base (live (snd (scheduleTask N fn pr tick delay rid s))) \<and>
            wrap_sorted (live (snd (scheduleTask N fn pr tick delay rid s)))) \<and>
         (well_formed N (unscheduleTask tid s) \<and> in_window base (live (unscheduleTask tid s)) \<and>
            wrap_sorted (live (unscheduleTask tid s))) \<and>
         (\<exists>r. update quiet now s = Some r \<and> well_formed N (snd r) \<and> in_window base (live (snd r)) \<and>
            wrap_sorted (live (snd r))) \<and>
         ((\<forall>fn pr s. well_formed N s \<and> in_window base (live s) \<longrightarrow>
              well_formed N (cb fn pr s) \<and> in_window base (live (cb fn pr s))) \<longrightarrow>
          (\<forall>r. update cb now s = Some r \<longrightarrow>
              well_formed N (snd r) \<and> in_window base (live (snd r)) \<and> wrap_sorted (live (snd r))))"
proof -
  have inv: "window_inv N base s" using assms by (simp add: window_inv_def)
  have a: "unat (tick + delay - base) < 2 ^ 31 \<longrightarrow>
            well_formed N (snd (scheduleTask N fn pr tick delay rid s)) \<and>
            in_window base (live (snd (scheduleTask N fn pr tick delay rid s))) \<and>
            wrap_sorted (live (snd (scheduleTask N fn pr tick delay rid s)))"
    using window_inv_scheduleTask[OF inv, of tick delay fn pr rid]
    by (auto simp: window_inv_def in_window_wrap_sorted)
  have b: "well_formed N (unscheduleTask tid s) \<and> in_window base (live (unscheduleTask tid s)) \<and>
            wrap_sorted (live (unscheduleTask tid s))"
    using window_inv_unscheduleTask[OF inv, of tid]
    by (auto simp: window_inv_def in_window_wrap_sorted)
  have c: "\<exists>r. update quiet now s = Some r \<and> well_formed N (snd r) \<and> in_window base (live (snd r)) \<and>
            wrap_sorted (live (snd r))"
  proof -
    from update_quiet[OF assms(1), of now] obtain r where r: "update quiet now s = Some r" by blast
    have "window_inv N base (snd r)"
      using window_inv_update[OF r inv] by (simp add: quiet_def)
    then show ?thesis using r by (auto simp: window_inv_def in_window_wrap_sorted)
  qed
  have d: "(\<forall>fn pr s. well_formed N s \<and> in_window base (live s) \<longrightarrow>
              well_formed N (cb fn pr s) \<and> in_window base (live (cb fn pr s))) \<longrightarrow>
          (\<forall>r. update cb now s = Some r \<longrightarrow>
              well_formed N (snd r) \<and> in_window base (live (snd r)) \<and> wrap_sorted (live (snd r)))"
  proof (intro impI allI)
    fix r
    assume cb: "\<forall>fn pr s. well_formed N s \<and> in_window base (live s) \<longrightarrow>
              well_formed N (cb fn pr s) \<and> in_window base (live (cb fn pr s))"
      and r: "update cb now s = Some r"
    have "window_inv N base (snd r)"
      using window_inv_update[OF r inv] cb by (simp add: window_inv_def)
    then show "well_formed N (snd r) \<and> in_window base (live (snd r)) \<and> wrap_sorted (live (snd r))"
      by (auto simp: window_inv_def in_window_wrap_sorted)
  qed
  from a b c d show ?thesis by blast
qed

text \<open>
  The amended C2 at \<open>two_pending\<close> with base 0.
\<close>

theorem window_sorted_after_each_call_witness:
  "well_formed 3 two_pending \<and> in_window 0 (live two_pending) \<and>
   unat (5 + 10 - 0 :: u32) < 2 ^ 31 \<and>
   wrap_sorted (live (snd (scheduleTask 3 1 3 5 10 0 two_pending))) \<and>
   wrap_sorted (live (unscheduleTask 2 two_pending)) \<and>
   (\<exists>r. update quiet 10 two_pending = Some r \<and> wrap_sorted (live (snd r)))"
proof -
  have h: "well_formed 3 two_pending" by code_simp
  have "live two_pending =
      [\<lparr>executeTime = 10, func = 1, param = 2, taskId = 2\<rparr>,
       \<lparr>executeTime = 20, func = 1, param = 1, taskId = 1\<rparr>]" by code_simp
  then have w: "in_window 0 (live two_pending)" by (simp add: in_window_def offs_def)
  have t: "unat (5 + 10 - 0 :: u32) < 2 ^ 31" by simp
  from window_sorted_after_each_call[OF h w, where tick = 5 and delay = 10 and fn = 1 and pr = 3 and rid = 0 and tid = 2 and now = 10 and cb = quiet] h w t show ?thesis
    by blast
qed

subsection \<open>C3: capacity exhaustion\<close>

text \<open>
  Claim C3 as stated fails in the direction ``returns 0 only when the table is full'',
  in two ways.  Once the identity counter has wrapped to 0 (\<open>counter_wrap_reachable\<close>), a
  fresh \<^verbatim>\<open>scheduleTask\<close> on an empty table of capacity 2 inserts its task and returns 0.
  And for \<^verbatim>\<open>MaxTaskCount = 2 ^ 31\<close> the bound \<^verbatim>\<open>static_cast<int>(MaxTaskCount)\<close> is negative:
  on the initial, empty table, with the counter at 1, \<^verbatim>\<open>scheduleTask\<close> returns 0.
\<close>

theorem zero_returned_with_free_slot_counterexample:
  "fst (scheduleTask 2 1 0 0 0 0 wrapped_counter) = 0 \<and>
   taskCount (reuse_removal 0 wrapped_counter) \<noteq> 2 \<and>
   fst (scheduleTask (2 ^ 31) 1 0 0 0 0 huge_table) = 0 \<and>
   taskCount (reuse_removal 0 huge_table) \<noteq> 2 ^ 31 \<and>
   idCounter huge_table \<noteq> 0"
proof -
  have a: "fst (scheduleTask 2 1 0 0 0 0 wrapped_counter) = 0 \<and>
      taskCount (reuse_removal 0 wrapped_counter) \<noteq> 2"
    by code_simp
  have c: "capacity (2 ^ 31) < 0" by (rule capacity_big) simp_all
  have z: "taskCount (reuse_removal 0 huge_table) = 0"
    by (simp add: reuse_removal_def huge_table_def initScheduler_def)
  have "scheduleTask (2 ^ 31) 1 0 0 0 0 huge_table = (0, reuse_removal 0 huge_table)"
    using c z by (intro scheduleTask_full) simp
  then have b: "fst (scheduleTask (2 ^ 31) 1 0 0 0 0 huge_table) = 0" by simp
  have d: "taskCount (reuse_removal 0 huge_table) \<noteq> 2 ^ 31" using z by simp
  have e: "idCounter huge_table \<noteq> 0" by (simp add: huge_table_def initScheduler_def)
  show ?thesis using a b d e by (intro conjI) simp_all
qed

text \<open>
  Claim C3, amended.  In every well-formed state: if the table holds \<open>N\<close> tasks after the
  reuse-removal, \<^verbatim>\<open>scheduleTask\<close> returns 0 and leaves the state as the reuse-removal left
  it (which is then the state before the call).  If \<^verbatim>\<open>reuseId\<close> is non-zero or the identity
  counter is non-zero, it returns 0 exactly when the capacity test
  \<^verbatim>\<open>_taskCount >= static_cast<int>(MaxTaskCount)\<close> holds after the reuse-removal, which for
  \<open>N < 2 ^ 31\<close> is exactly when the table holds \<open>N\<close> tasks then.  For \<open>N < 2 ^ 31\<close>, if a
  non-zero \<^verbatim>\<open>reuseId\<close> matches a live task of a full table, the prior task is removed and
  the insertion succeeds, returning \<^verbatim>\<open>reuseId\<close> with the table full again.  For
  \<open>2 ^ 31 \<le> N < 2 ^ 32\<close> every call returns 0 and does the reuse-removal only.
\<close>

theorem capacity_check_after_reuse_removal:
  assumes "well_formed N s"
  shows "(taskCount (reuse_removal rid s) = N \<longrightarrow>
            scheduleTask N fn pr tick delay rid s = (0, reuse_removal rid s) \<and>
            reuse_removal rid s = s) \<and>
         (rid \<noteq> 0 \<or> idCounter s \<noteq> 0 \<longrightarrow>
            (fst (scheduleTask N fn pr tick delay rid s) = 0 \<longleftrightarrow>
             capacity N \<le> int (taskCount (reuse_removal rid s)))) \<and>
         (N < 2 ^ 31 \<longrightarrow>
            (capacity N \<le> int (taskCount (reuse_removal rid s)) \<longleftrightarrow>
             taskCount (reuse_removal rid s) = N)) \<and>
         (N < 2 ^ 31 \<and> (rid \<noteq> 0 \<or> idCounter s \<noteq> 0) \<longrightarrow>
            (fst (scheduleTask N fn pr tick delay rid s) = 0 \<longleftrightarrow>
             taskCount (reuse_removal rid s) = N)) \<and>
         (N < 2 ^ 31 \<and> rid \<noteq> 0 \<and> rid \<in> taskId ` set (live s) \<and> taskCount s = N \<longrightarrow>
            fst (scheduleTask N fn pr tick delay rid s) = rid \<and>
            taskCount (snd (scheduleTask N fn pr tick delay rid s)) = N \<and>
            live (snd (scheduleTask N fn pr tick delay rid s)) =
              ins_task \<lparr>executeTime = tick + delay, func = fn, param = pr, taskId = rid\<rparr>
                (del_id rid (live s))) \<and>
         (2 ^ 31 \<le> N \<and> N < 2 ^ 32 \<longrightarrow>
            scheduleTask N fn pr tick delay rid s = (0, reuse_removal rid s))"
proof -
  let ?s1 = "reuse_removal rid s"
  have wf1: "well_formed N ?s1" using assms by (rule wf_reuse_removal)
  have le: "taskCount ?s1 \<le> N" using wf1 by (simp add: well_formed_def)
  have lv1: "live ?s1 = (if rid \<noteq> 0 then del_id rid (live s) else live s)"
    using assms by (rule reuse_removal_live)
  have c1: "taskCount ?s1 = length (live ?s1)" using assms by (rule reuse_removal_count)
  have c0: "taskCount s = length (live s)" using live_length[OF assms] by simp
  have hit: "Suc (taskCount ?s1) = taskCount s" if "rid \<noteq> 0" "rid \<in> taskId ` set (live s)"
    using del_id_hit_length[OF that(2)] that(1) by (simp add: c1 c0 lv1)
  have full: "capacity N \<le> int (taskCount ?s1)" if "taskCount ?s1 = N"
    using capacity_le[of N] that by simp
  have small: "capacity N \<le> int (taskCount ?s1) \<longleftrightarrow> taskCount ?s1 = N" if "N < 2 ^ 31"
    using capacity_small[OF that] le by auto
  have a: "taskCount ?s1 = N \<longrightarrow>
            scheduleTask N fn pr tick delay rid s = (0, ?s1) \<and> ?s1 = s"
  proof
    assume f: "taskCount ?s1 = N"
    have "rid = 0 \<or> (\<forall>t \<in> set (live s). taskId t \<noteq> rid)"
    proof (rule ccontr)
      assume "\<not> (rid = 0 \<or> (\<forall>t \<in> set (live s). taskId t \<noteq> rid))"
      then have "rid \<noteq> 0" "rid \<in> taskId ` set (live s)" by auto
      from hit[OF this] f assms show False by (simp add: well_formed_def)
    qed
    then have "?s1 = s" using reuse_removal_noop[OF assms] by blast
    moreover have "scheduleTask N fn pr tick delay rid s = (0, ?s1)"
      using full[OF f] by (rule scheduleTask_full)
    ultimately show "scheduleTask N fn pr tick delay rid s = (0, ?s1) \<and> ?s1 = s" by simp
  qed
  have b: "rid \<noteq> 0 \<or> idCounter s \<noteq> 0 \<longrightarrow>
            (fst (scheduleTask N fn pr tick delay rid s) = 0 \<longleftrightarrow>
             capacity N \<le> int (taskCount ?s1))"
  proof (cases "capacity N \<le> int (taskCount ?s1)")
    case True
    then show ?thesis by (simp add: scheduleTask_full)
  next
    case False
    then have free: "int (taskCount ?s1) < capacity N" by simp
    show ?thesis using scheduleTask_ok(1)[OF assms free, of fn pr tick delay] False by auto
  qed
  have c: "N < 2 ^ 31 \<longrightarrow> (capacity N \<le> int (taskCount ?s1) \<longleftrightarrow> taskCount ?s1 = N)"
    using small by blast
  have d: "N < 2 ^ 31 \<and> (rid \<noteq> 0 \<or> idCounter s \<noteq> 0) \<longrightarrow>
            (fst (scheduleTask N fn pr tick delay rid s) = 0 \<longleftrightarrow> taskCount ?s1 = N)"
    using b small by blast
  have e: "N < 2 ^ 31 \<and> rid \<noteq> 0 \<and> rid \<in> taskId ` set (live s) \<and> taskCount s = N \<longrightarrow>
            fst (scheduleTask N fn pr tick delay rid s) = rid \<and>
            taskCount (snd (scheduleTask N fn pr tick delay rid s)) = N \<and>
            live (snd (scheduleTask N fn pr tick delay rid s)) =
              ins_task \<lparr>executeTime = tick + delay, func = fn, param = pr, taskId = rid\<rparr>
                (del_id rid (live s))"
  proof
    assume h: "N < 2 ^ 31 \<and> rid \<noteq> 0 \<and> rid \<in> taskId ` set (live s) \<and> taskCount s = N"
    then have s: "Suc (taskCount ?s1) = N" using hit by simp
    then have free: "int (taskCount ?s1) < capacity N" using capacity_small[of N] h by simp
    show "fst (scheduleTask N fn pr tick delay rid s) = rid \<and>
            taskCount (snd (scheduleTask N fn pr tick delay rid s)) = N \<and>
            live (snd (scheduleTask N fn pr tick delay rid s)) =
              ins_task \<lparr>executeTime = tick + delay, func = fn, param = pr, taskId = rid\<rparr>
                (del_id rid (live s))"
      using scheduleTask_ok(1,3,5)[OF assms free, of fn pr tick delay] h s
      by (simp add: lv1 new_slot_def)
  qed
  have f: "2 ^ 31 \<le> N \<and> N < 2 ^ 32 \<longrightarrow>
            scheduleTask N fn pr tick delay rid s = (0, ?s1)"
  proof
    assume "2 ^ 31 \<le> N \<and> N < 2 ^ 32"
    then have "capacity N < 0" using capacity_big by blast
    then show "scheduleTask N fn pr tick delay rid s = (0, ?s1)"
      by (intro scheduleTask_full) simp
  qed
  show ?thesis by (intro conjI) (fact a, fact b, fact c, fact d, fact e, fact f)
qed

text \<open>
  The amended C3 at \<open>full_table\<close>: a fresh schedule is refused, a schedule reusing id 1
  succeeds.
\<close>

theorem capacity_check_after_reuse_removal_witness:
  "well_formed 2 full_table \<and> taskCount (reuse_removal 0 full_table) = 2 \<and>
   scheduleTask 2 1 3 0 5 0 full_table = (0, full_table) \<and>
   (2 :: nat) < 2 ^ 31 \<and>
   (1 :: u32) \<noteq> 0 \<and> 1 \<in> taskId ` set (live full_table) \<and> taskCount full_table = 2 \<and>
   fst (scheduleTask 2 1 3 0 5 1 full_table) = 1 \<and>
   taskCount (snd (scheduleTask 2 1 3 0 5 1 full_table)) = 2"
proof -
  have h: "well_formed 2 full_table" by code_simp
  have f: "taskCount (reuse_removal 0 full_table) = 2" by code_simp
  have m: "1 \<in> taskId ` set (live full_table)" by code_simp
  have c: "taskCount full_table = 2" by code_simp
  have n: "(2 :: nat) < 2 ^ 31" by simp
  from capacity_check_after_reuse_removal[OF h, where rid = 0 and fn = 1 and pr = 3 and tick = 0 and delay = 5]
    capacity_check_after_reuse_removal[OF h, where rid = 1 and fn = 1 and pr = 3 and tick = 0 and delay = 5] h f m c n
  show ?thesis by simp
qed

subsection \<open>C4: the returned id\<close>

text \<open>
  Claim C4 as stated fails after the counter has wrapped: in \<open>wrapped_counter\<close> a fresh
  \<^verbatim>\<open>scheduleTask\<close> finds a free slot, inserts its task under id 0 and returns 0.
\<close>

theorem wrapped_counter_issues_zero_counterexample:
  "int (taskCount (reuse_removal 0 wrapped_counter)) < capacity 2 \<and>
   fst (scheduleTask 2 1 7 5 5 0 wrapped_counter) = 0 \<and>
   live (snd (scheduleTask 2 1 7 5 5 0 wrapped_counter)) =
     [\<lparr>executeTime = 10, func = 1, param = 7, taskId = 0\<rparr>]"
proof -
  have "capacity 2 = 2" using capacity_small[of 2] by simp
  moreover have "taskCount (reuse_removal 0 wrapped_counter) = 0" by code_simp
  ultimately have a: "int (taskCount (reuse_removal 0 wrapped_counter)) < capacity 2" by simp
  have b: "fst (scheduleTask 2 1 7 5 5 0 wrapped_counter) = 0 \<and>
      live (snd (scheduleTask 2 1 7 5 5 0 wrapped_counter)) =
        [\<lparr>executeTime = 10, func = 1, param = 7, taskId = 0\<rparr>]"
    by code_simp
  show ?thesis using a b by simp
qed

text \<open>
  Claim C4, amended.  For every successful call of \<^verbatim>\<open>scheduleTask\<close>, one that finds a free
  slot (the test \<^verbatim>\<open>_taskCount >= static_cast<int>(MaxTaskCount)\<close> fails after the
  reuse-removal), the returned id equals \<^verbatim>\<open>reuseId\<close> when that is non-zero and the identity
  counter's current value otherwise, after which the counter is incremented modulo
  \<open>2 ^ 32\<close> without skipping 0.  The returned id is non-zero exactly when \<^verbatim>\<open>reuseId\<close> or
  the counter is non-zero.
\<close>

theorem returned_id_and_counter:
  assumes "well_formed N s" and "int (taskCount (reuse_removal rid s)) < capacity N"
  shows "fst (scheduleTask N fn pr tick delay rid s) = (if rid \<noteq> 0 then rid else idCounter s) \<and>
         idCounter (snd (scheduleTask N fn pr tick delay rid s)) =
           (if rid \<noteq> 0 then idCounter s else idCounter s + 1) \<and>
         (fst (scheduleTask N fn pr tick delay rid s) \<noteq> 0 \<longleftrightarrow> rid \<noteq> 0 \<or> idCounter s \<noteq> 0) \<and>
         (rid = 0 \<and> idCounter s = - 1 \<longrightarrow> idCounter (snd (scheduleTask N fn pr tick delay rid s)) = 0) \<and>
         taskCount (snd (scheduleTask N fn pr tick delay rid s)) =
           taskCount (reuse_removal rid s) + 1 \<and>
         taskCount (reuse_removal rid s) < N"
  using scheduleTask_ok(1,2,3)[OF assms, of fn pr tick delay] scheduleTask_ok(6)[OF assms]
  by auto

text \<open>
  The amended C4 at \<open>two_pending\<close>: the fresh id is 3 and the counter moves to 4.
\<close>

theorem returned_id_and_counter_witness:
  "well_formed 3 two_pending \<and> int (taskCount (reuse_removal 0 two_pending)) < capacity 3 \<and>
   idCounter two_pending = 3 \<and>
   fst (scheduleTask 3 1 3 0 5 0 two_pending) = 3 \<and>
   idCounter (snd (scheduleTask 3 1 3 0 5 0 two_pending)) = 4"
proof -
  have h: "well_formed 3 two_pending" by code_simp
  have "capacity 3 = 3" using capacity_small[of 3] by simp
  moreover have "taskCount (reuse_removal 0 two_pending) = 2" by code_simp
  ultimately have f: "int (taskCount (reuse_removal 0 two_pending)) < capacity 3" by simp
  have c: "idCounter two_pending = 3" by code_simp
  from returned_id_and_counter[OF h f, where fn = 1 and pr = 3 and tick = 0 and delay = 5] h f c
  show ?thesis by simp
qed

subsection \<open>C5: equal deadlines fire in schedule order\<close>

text \<open>
  Claim C5.  A successful \<^verbatim>\<open>scheduleTask\<close> moves up only live tasks with
  \<open>signed32(target - executeTime) < 0\<close>, so every live task with the newcomer's deadline
  stays in front of it.  Therefore, for a client that starts on an empty table and
  numbers its \<^verbatim>\<open>scheduleTask\<close> calls, and any sequence of \<^verbatim>\<open>scheduleTask\<close>, \<^verbatim>\<open>unscheduleTask\<close>
  and \<^verbatim>\<open>update\<close> calls made from the host loop, with callbacks that may themselves make
  any \<^verbatim>\<open>scheduleTask\<close> and \<^verbatim>\<open>unscheduleTask\<close> calls:
  \<^item> whenever the calls return, any two dispatched tasks with equal deadlines were
    dispatched in the order they were scheduled, and every task still pending with the
    deadline of a dispatched one was scheduled after it;
  \<^item> with callbacks that make no calls, the calls do return;
  \<^item> \<open>n\<close> tasks scheduled with the same deadline while the table has room, followed by
    an \<^verbatim>\<open>update\<close> at a tick where that deadline is due, are all dispatched by that
    \<^verbatim>\<open>update\<close>, in the order they were scheduled.
\<close>

theorem equal_deadlines_dispatch_in_schedule_order:
  assumes "well_formed N h" and "taskCount h = 0"
  shows "(\<forall>fired h'. run_calls N script cs ([], h) = Some (fired, h') \<longrightarrow>
            fifo fired \<and> fifo (fired @ live h')) \<and>
         (\<exists>fired h'. run_calls N no_requests cs ([], h) = Some (fired, h') \<and> fifo fired) \<and>
         (\<forall>n fn tick delay now.
            int n \<le> capacity N \<and> 0 \<le> sint (now - (tick + delay)) \<longrightarrow>
            (\<exists>h'. run_calls N no_requests
                     (replicate n (Request (Arm fn tick delay 0)) @ [Drain now]) ([], h) =
                   Some (map (\<lambda>i. \<lparr>executeTime = tick + delay, func = fn,
                                    param = nextStamp h + i,
                                    taskId = idCounter h + of_nat i\<rparr>) [0..<n], h') \<and>
                   live h' = [])) \<and>
         (\<forall>(s0 :: stamped) fn pr tick delay rid.
            well_formed N s0 \<and> int (taskCount (reuse_removal rid s0)) < capacity N \<longrightarrow>
            (\<exists>A B. live (reuse_removal rid s0) = A @ B \<and>
               live (snd (scheduleTask N fn pr tick delay rid s0)) =
                 A @ \<lparr>executeTime = tick + delay, func = fn, param = pr,
                       taskId = fst (scheduleTask N fn pr tick delay rid s0)\<rparr> # B \<and>
               (\<forall>t \<in> set B. sint (tick + delay - executeTime t) < 0) \<and>
               (\<forall>t \<in> set B. executeTime t \<noteq> tick + delay)))"
proof -
  have i: "stamp_inv N ([], h)" using assms by (rule stamp_inv_empty)
  have a: "\<forall>fired h'. run_calls N script cs ([], h) = Some (fired, h') \<longrightarrow>
            fifo fired \<and> fifo (fired @ live h')"
  proof (intro allI impI)
    fix fired h' assume "run_calls N script cs ([], h) = Some (fired, h')"
    from stamp_inv_run_calls[OF this i] have "fifo (fired @ live h')"
      by (simp add: stamp_inv_def)
    then show "fifo fired \<and> fifo (fired @ live h')" using fifo_prefix by blast
  qed
  have b: "\<exists>fired h'. run_calls N no_requests cs ([], h) = Some (fired, h') \<and> fifo fired"
  proof -
    from run_calls_quiet_total[of N "([], h)" cs] assms(1)
    obtain fired h' where r: "run_calls N no_requests cs ([], h) = Some (fired, h')"
      by auto
    from stamp_inv_run_calls[OF this i] have "fifo (fired @ live h')"
      by (simp add: stamp_inv_def)
    then have "fifo fired" by (rule fifo_prefix)
    then show ?thesis using r by blast
  qed
  have c: "\<forall>n fn tick delay now.
            int n \<le> capacity N \<and> 0 \<le> sint (now - (tick + delay)) \<longrightarrow>
            (\<exists>h'. run_calls N no_requests
                     (replicate n (Request (Arm fn tick delay 0)) @ [Drain now]) ([], h) =
                   Some (map (\<lambda>i. \<lparr>executeTime = tick + delay, func = fn,
                                    param = nextStamp h + i,
                                    taskId = idCounter h + of_nat i\<rparr>) [0..<n], h') \<and>
                   live h' = [])"
  proof (intro allI impI)
    fix n fn and tick delay now :: u32
    assume p: "int n \<le> capacity N \<and> 0 \<le> sint (now - (tick + delay))"
    have bs: "batch_slot fn (tick + delay) (nextStamp h) (idCounter h) =
        (\<lambda>i. \<lparr>executeTime = tick + delay, func = fn, param = nextStamp h + i,
               taskId = idCounter h + of_nat i\<rparr>)"
      by (simp add: batch_slot_def fun_eq_iff)
    from batch_fires_in_order[OF assms, where n = n and fn = fn and tick = tick and delay = delay and now = now] p
    show "\<exists>h'. run_calls N no_requests
                     (replicate n (Request (Arm fn tick delay 0)) @ [Drain now]) ([], h) =
                   Some (map (\<lambda>i. \<lparr>executeTime = tick + delay, func = fn,
                                    param = nextStamp h + i,
                                    taskId = idCounter h + of_nat i\<rparr>) [0..<n], h') \<and>
                   live h' = []"
      unfolding bs by blast
  qed
  have d: "\<forall>(s0 :: stamped) fn pr tick delay rid.
            well_formed N s0 \<and> int (taskCount (reuse_removal rid s0)) < capacity N \<longrightarrow>
            (\<exists>A B. live (reuse_removal rid s0) = A @ B \<and>
               live (snd (scheduleTask N fn pr tick delay rid s0)) =
                 A @ \<lparr>executeTime = tick + delay, func = fn, param = pr,
                       taskId = fst (scheduleTask N fn pr tick delay rid s0)\<rparr> # B \<and>
               (\<forall>t \<in> set B. sint (tick + delay - executeTime t) < 0) \<and>
               (\<forall>t \<in> set B. executeTime t \<noteq> tick + delay))"
  proof (intro allI impI)
    fix s0 :: stamped and fn pr tick delay rid
    assume h: "well_formed N s0 \<and> int (taskCount (reuse_removal rid s0)) < capacity N"
    let ?slot = "new_slot fn pr tick delay rid s0"
    note ok = scheduleTask_ok(1,5)[of N s0 rid fn pr tick delay]
    have id: "fst (scheduleTask N fn pr tick delay rid s0) = taskId ?slot"
      using ok(1) h by (simp add: new_slot_def)
    have sl: "\<lparr>executeTime = tick + delay, func = fn, param = pr, taskId = taskId ?slot\<rparr> = ?slot"
      by (simp add: new_slot_def)
    obtain A B where ab: "live (reuse_removal rid s0) = A @ B"
      "ins_task ?slot (live (reuse_removal rid s0)) = A @ ?slot # B"
      "\<forall>t \<in> set B. later (executeTime ?slot) t"
      using ins_task_split[of "live (reuse_removal rid s0)" ?slot] by blast
    have t: "executeTime ?slot = tick + delay" by (simp add: new_slot_def)
    have "live (snd (scheduleTask N fn pr tick delay rid s0)) = A @ ?slot # B"
      using ok(2) h ab(2) by simp
    moreover have "\<forall>t \<in> set B. sint (tick + delay - executeTime t) < 0"
      using ab(3) by (simp add: t later_def)
    moreover have "\<forall>t \<in> set B. executeTime t \<noteq> tick + delay"
      using ab(3) later_neq by (metis t)
    ultimately show "\<exists>A B. live (reuse_removal rid s0) = A @ B \<and>
               live (snd (scheduleTask N fn pr tick delay rid s0)) =
                 A @ \<lparr>executeTime = tick + delay, func = fn, param = pr,
                       taskId = fst (scheduleTask N fn pr tick delay rid s0)\<rparr> # B \<and>
               (\<forall>t \<in> set B. sint (tick + delay - executeTime t) < 0) \<and>
               (\<forall>t \<in> set B. executeTime t \<noteq> tick + delay)"
      using ab(1) unfolding id sl by blast
  qed
  show ?thesis by (intro conjI) (fact a, fact b, fact c, fact d)
qed

text \<open>
  C5 at the client on the initial state of capacity 3.  Three tasks are scheduled for
  tick 10 at ticks 0, 3 and 5, with stamps 0, 1, 2; the \<^verbatim>\<open>update\<close> at tick 10 invokes them
  in that order.  When each of their callbacks schedules one more task for tick 10
  (stamps 3, 4, 5), the same \<^verbatim>\<open>update\<close> invokes all six, in the order of their stamps.
\<close>

theorem equal_deadlines_dispatch_in_schedule_order_witness:
  "well_formed 3 client3 \<and> taskCount client3 = 0 \<and>
   map_option (\<lambda>(fired, h'). (fired, live h')) (run_calls 3 no_requests fifo_calls ([], client3)) =
     Some ([\<lparr>executeTime = 10, func = 1, param = 0, taskId = 1\<rparr>,
            \<lparr>executeTime = 10, func = 1, param = 1, taskId = 2\<rparr>,
            \<lparr>executeTime = 10, func = 1, param = 2, taskId = 3\<rparr>], []) \<and>
   map_option (\<lambda>(fired, h'). (fired, live h')) (run_calls 3 follow_up fifo_calls ([], client3)) =
     Some ([\<lparr>executeTime = 10, func = 1, param = 0, taskId = 1\<rparr>,
            \<lparr>executeTime = 10, func = 1, param = 1, taskId = 2\<rparr>,
            \<lparr>executeTime = 10, func = 1, param = 2, taskId = 3\<rparr>,
            \<lparr>executeTime = 10, func = 2, param = 3, taskId = 4\<rparr>,
            \<lparr>executeTime = 10, func = 2, param = 4, taskId = 5\<rparr>,
            \<lparr>executeTime = 10, func = 2, param = 5, taskId = 6\<rparr>], []) \<and>
   fifo [\<lparr>executeTime = 10, func = 1, param = 0, taskId = 1\<rparr>,
         \<lparr>executeTime = 10, func = 1, param = 1, taskId = 2\<rparr>,
         \<lparr>executeTime = 10, func = 1, param = 2, taskId = 3\<rparr>,
         \<lparr>executeTime = 10, func = 2, param = 3, taskId = 4\<rparr>,
         \<lparr>executeTime = 10, func = 2, param = 4, taskId = 5\<rparr>,
         \<lparr>executeTime = 10, func = 2, param = 5, taskId = 6\<rparr>]"
proof -
  let ?six = "[\<lparr>executeTime = 10, func = 1, param = 0, taskId = 1\<rparr>,
            \<lparr>executeTime = 10, func = 1, param = 1, taskId = 2\<rparr>,
            \<lparr>executeTime = 10, func = 1, param = 2, taskId = 3\<rparr>,
            \<lparr>executeTime = 10, func = 2, param = 3, taskId = 4\<rparr>,
            \<lparr>executeTime = 10, func = 2, param = 4, taskId = 5\<rparr>,
            \<lparr>executeTime = 10, func = 2, param = 5, taskId = 6\<rparr>]"
  have h: "well_formed 3 client3" by code_simp
  have e: "taskCount client3 = 0" by code_simp
  have q: "map_option (\<lambda>(fired, h'). (fired, live h'))
             (run_calls 3 no_requests fifo_calls ([], client3)) =
     Some ([\<lparr>executeTime = 10, func = 1, param = 0, taskId = 1\<rparr>,
            \<lparr>executeTime = 10, func = 1, param = 1, taskId = 2\<rparr>,
            \<lparr>executeTime = 10, func = 1, param = 2, taskId = 3\<rparr>], [])"
    by code_simp
  have r: "map_option (\<lambda>(fired, h'). (fired, live h'))
             (run_calls 3 follow_up fifo_calls ([], client3)) = Some (?six, [])"
    by code_simp
  then obtain h' where "run_calls 3 follow_up fifo_calls ([], client3) = Some (?six, h')"
    by (auto simp: map_option_case split: option.splits)
  with equal_deadlines_dispatch_in_schedule_order[OF h e, where script = follow_up and cs = fifo_calls]
  have f: "fifo ?six" by blast
  show ?thesis by (intro conjI) (fact h, fact e, fact q, fact r, fact f)
qed

subsection \<open>C6: tick arithmetic modulo \<open>2 ^ 32\<close>\<close>



subsection \<open>C7: live ids are non-zero and distinct\<close>

text \<open>
  Claim C7 as stated fails for arbitrary non-zero \<^verbatim>\<open>reuseId\<close> values.  From the initial
  state a task is scheduled with \<^verbatim>\<open>reuseId = 1\<close>, which matches nothing and leaves the
  counter at 1; the next fresh task receives id 1 as well.
\<close>

theorem fresh_id_clashes_with_reused_counterexample:
  "map taskId (live clash_table) = [1, 1] \<and> \<not> distinct (map taskId (live clash_table))"
  by code_simp

text \<open>
  Claim C7, amended.  In the initial state, and after every call of \<^verbatim>\<open>scheduleTask\<close>,
  \<^verbatim>\<open>unscheduleTask\<close> or \<^verbatim>\<open>update\<close> from a state where it held, every live id is non-zero,
  below the identity counter and carried by one live slot only, provided each non-zero
  \<^verbatim>\<open>reuseId\<close> is below the counter (an id the counter has issued) and no fresh id is
  drawn when the counter stands at \<open>2 ^ 32 - 1\<close>.  For \<^verbatim>\<open>update\<close> this holds with callbacks
  that leave the scheduler alone and, whenever \<^verbatim>\<open>update\<close> returns, with callbacks that
  keep the property themselves.
\<close>

theorem live_ids_nonzero_and_distinct:
  assumes "well_formed N s" and "ids_ok s"
  shows "((rid = 0 \<and> idCounter s \<noteq> - 1) \<or> (rid \<noteq> 0 \<and> rid < idCounter s) \<longrightarrow>
            ids_ok (snd (scheduleTask N fn pr tick delay rid s))) \<and>
         ids_ok (unscheduleTask tid s) \<and>
         (\<exists>r. update quiet now s = Some r \<and> ids_ok (snd r)) \<and>
         ((\<forall>fn pr s. well_formed N s \<and> ids_ok s \<longrightarrow>
              well_formed N (cb fn pr s) \<and> ids_ok (cb fn pr s)) \<longrightarrow>
          (\<forall>r. update cb now s = Some r \<longrightarrow> ids_ok (snd r))) \<and>
         ids_ok (initScheduler N) \<and>
         (\<forall>s'. ids_ok s' \<longrightarrow>
            distinct (map taskId (live s')) \<and> (\<forall>t \<in> set (live s'). taskId t \<noteq> 0))"
proof -
  have a: "(rid = 0 \<and> idCounter s \<noteq> - 1) \<or> (rid \<noteq> 0 \<and> rid < idCounter s) \<longrightarrow>
            ids_ok (snd (scheduleTask N fn pr tick delay rid s))"
    using ids_ok_scheduleTask[OF assms] by blast
  have b: "ids_ok (unscheduleTask tid s)" using assms by (rule ids_ok_unscheduleTask)
  have c: "\<exists>r. update quiet now s = Some r \<and> ids_ok (snd r)"
  proof -
    from update_quiet[OF assms(1), of now] obtain r where r: "update quiet now s = Some r" by blast
    have "well_formed N (snd r) \<and> ids_ok (snd r)"
      using r assms by (rule ids_ok_update) (simp add: quiet_def)
    then show ?thesis using r by blast
  qed
  have d: "(\<forall>fn pr s. well_formed N s \<and> ids_ok s \<longrightarrow>
              well_formed N (cb fn pr s) \<and> ids_ok (cb fn pr s)) \<longrightarrow>
          (\<forall>r. update cb now s = Some r \<longrightarrow> ids_ok (snd r))"
  proof (intro impI allI)
    fix r
    assume cb: "\<forall>fn pr s. well_formed N s \<and> ids_ok s \<longrightarrow>
              well_formed N (cb fn pr s) \<and> ids_ok (cb fn pr s)"
      and r: "update cb now s = Some r"
    have "well_formed N (snd r) \<and> ids_ok (snd r)"
      using r assms by (rule ids_ok_update) (use cb in blast)
    then show "ids_ok (snd r)" by simp
  qed
  have e: "ids_ok (initScheduler N)"
    by (simp add: ids_ok_def initScheduler_def live_def)
  have f: "\<forall>s'. ids_ok s' \<longrightarrow>
            distinct (map taskId (live s')) \<and> (\<forall>t \<in> set (live s'). taskId t \<noteq> 0)"
    by (simp add: ids_ok_def list_all_iff)
  show ?thesis by (intro conjI) (fact a, fact b, fact c, fact d, fact e, fact f)
qed

text \<open>
  The amended C7 at \<open>two_pending\<close>, rescheduling the live id 2.
\<close>

theorem live_ids_nonzero_and_distinct_witness:
  "well_formed 3 two_pending \<and> ids_ok two_pending \<and>
   (2 :: u32) \<noteq> 0 \<and> 2 < idCounter two_pending \<and>
   ids_ok (snd (scheduleTask 3 1 3 0 5 2 two_pending)) \<and>
   ids_ok (unscheduleTask 1 two_pending) \<and>
   distinct (map taskId (live (snd (scheduleTask 3 1 3 0 5 2 two_pending))))"
proof -
  have h: "well_formed 3 two_pending" by code_simp
  have i: "ids_ok two_pending" by code_simp
  have r: "(2 :: u32) \<noteq> 0 \<and> 2 < idCounter two_pending" by code_simp
  from live_ids_nonzero_and_distinct[OF h i, where rid = 2 and fn = 1 and pr = 3 and tick = 0 and delay = 5 and tid = 1 and now = 10 and cb = quiet] h i r show ?thesis
    by blast
qed

subsection \<open>C8: schedule, then unschedule\<close>

text \<open>
  Claim C8 as stated fails in two ways.  In \<open>reused_one\<close>, a state with distinct live ids
  and a free slot, the only live task carries id 1 and the counter stands at 1.  The
  fresh task receives id 1 too and lands behind the older one, so \<^verbatim>\<open>unscheduleTask(1)\<close>
  removes the older task and the newcomer stays.  And for \<^verbatim>\<open>MaxTaskCount = 2 ^ 31\<close> the
  bound \<^verbatim>\<open>static_cast<int>(MaxTaskCount)\<close> is negative: on the initial, empty table
  \<^verbatim>\<open>scheduleTask\<close> returns 0 and the identity counter is not incremented.
\<close>

theorem round_trip_removes_older_task_counterexample:
  "distinct (map taskId (live reused_one)) \<and> taskCount reused_one < 2 \<and>
   live reused_one = [\<lparr>executeTime = 100, func = 1, param = 1, taskId = 1\<rparr>] \<and>
   fst (scheduleTask 2 1 2 0 200 0 reused_one) = 1 \<and>
   live (unscheduleTask (fst (scheduleTask 2 1 2 0 200 0 reused_one))
           (snd (scheduleTask 2 1 2 0 200 0 reused_one))) =
     [\<lparr>executeTime = 200, func = 1, param = 2, taskId = 1\<rparr>] \<and>
   live (unscheduleTask (fst (scheduleTask 2 1 2 0 200 0 reused_one))
           (snd (scheduleTask 2 1 2 0 200 0 reused_one))) \<noteq> live reused_one \<and>
   distinct (map taskId (live huge_table)) \<and> taskCount huge_table < 2 ^ 31 \<and>
   idCounter (unscheduleTask (fst (scheduleTask (2 ^ 31) 1 2 0 200 0 huge_table))
           (snd (scheduleTask (2 ^ 31) 1 2 0 200 0 huge_table))) \<noteq> idCounter huge_table + 1"
proof -
  have a: "distinct (map taskId (live reused_one)) \<and> taskCount reused_one < 2 \<and>
   live reused_one = [\<lparr>executeTime = 100, func = 1, param = 1, taskId = 1\<rparr>] \<and>
   fst (scheduleTask 2 1 2 0 200 0 reused_one) = 1 \<and>
   live (unscheduleTask (fst (scheduleTask 2 1 2 0 200 0 reused_one))
           (snd (scheduleTask 2 1 2 0 200 0 reused_one))) =
     [\<lparr>executeTime = 200, func = 1, param = 2, taskId = 1\<rparr>] \<and>
   live (unscheduleTask (fst (scheduleTask 2 1 2 0 200 0 reused_one))
           (snd (scheduleTask 2 1 2 0 200 0 reused_one))) \<noteq> live reused_one"
    by code_simp
  have z: "taskCount huge_table = 0" by (simp add: huge_table_def initScheduler_def)
  have b: "distinct (map taskId (live huge_table))" using z by (simp add: live_def)
  have c: "taskCount huge_table < 2 ^ 31" using z by simp
  have "capacity (2 ^ 31) < 0" by (rule capacity_big) simp_all
  then have "capacity (2 ^ 31) \<le> int (taskCount (reuse_removal 0 huge_table))"
    using z by (simp add: reuse_removal_def)
  then have "scheduleTask (2 ^ 31) 1 2 0 200 0 huge_table = (0, reuse_removal 0 huge_table)"
    by (rule scheduleTask_full)
  then have "idCounter (unscheduleTask (fst (scheduleTask (2 ^ 31) 1 2 0 200 0 huge_table))
           (snd (scheduleTask (2 ^ 31) 1 2 0 200 0 huge_table))) = idCounter huge_table"
    by (simp add: reuse_removal_def)
  then have d: "idCounter (unscheduleTask (fst (scheduleTask (2 ^ 31) 1 2 0 200 0 huge_table))
           (snd (scheduleTask (2 ^ 31) 1 2 0 200 0 huge_table))) \<noteq> idCounter huge_table + 1"
    by simp
  show ?thesis
    apply (insert a b c d)
    apply (elim conjE)
    apply (intro conjI; assumption)
    done
qed

text \<open>
  Claim C8, amended.  From any well-formed state in which the capacity test
  \<^verbatim>\<open>_taskCount >= static_cast<int>(MaxTaskCount)\<close> fails (for \<open>N < 2 ^ 31\<close>: in which
  \<open>taskCount < N\<close>) and no live task carries the identity counter's current value as its
  id, \<^verbatim>\<open>scheduleTask\<close> with \<^verbatim>\<open>reuseId = 0\<close> returns that value, and \<^verbatim>\<open>unscheduleTask\<close> of it
  restores the live tasks, their order and \<^verbatim>\<open>taskCount\<close>; the identity counter is
  incremented by one.
\<close>

theorem schedule_then_unschedule_round_trip:
  assumes "well_formed N s"
    and "int (taskCount s) < capacity N \<or> N < 2 ^ 31 \<and> taskCount s < N"
    and "\<forall>t \<in> set (live s). taskId t \<noteq> idCounter s"
  shows "fst (scheduleTask N fn pr tick delay 0 s) = idCounter s \<and>
         live (unscheduleTask (fst (scheduleTask N fn pr tick delay 0 s))
                (snd (scheduleTask N fn pr tick delay 0 s))) = live s \<and>
         taskCount (unscheduleTask (fst (scheduleTask N fn pr tick delay 0 s))
                (snd (scheduleTask N fn pr tick delay 0 s))) = taskCount s \<and>
         idCounter (unscheduleTask (fst (scheduleTask N fn pr tick delay 0 s))
                (snd (scheduleTask N fn pr tick delay 0 s))) = idCounter s + 1"
proof -
  let ?r = "scheduleTask N fn pr tick delay 0 s"
  let ?slot = "new_slot fn pr tick delay 0 s"
  have rr: "reuse_removal 0 s = s" by (simp add: reuse_removal_def)
  have free: "int (taskCount (reuse_removal 0 s)) < capacity N"
    using assms(2) capacity_small[of N] by (auto simp: rr)
  note ok = scheduleTask_ok(1-5)[OF assms(1) free, of fn pr tick delay, unfolded rr]
  have id: "fst ?r = idCounter s" using ok(1) by simp
  have wf1: "well_formed N (snd ?r)" using assms(1) by (rule wf_scheduleTask)
  obtain A B where ab: "live s = A @ B" "ins_task ?slot (live s) = A @ ?slot # B"
    using ins_task_split[of "live s" ?slot] by blast
  have "live (unscheduleTask (fst ?r) (snd ?r)) = del_id (idCounter s) (A @ ?slot # B)"
    using unscheduleTask_live[OF wf1] ok(5) ab(2) id by simp
  also have "\<dots> = A @ B"
    using assms(3) ab(1) by (simp add: del_id_append new_slot_def)
  finally have lv: "live (unscheduleTask (fst ?r) (snd ?r)) = live s" using ab(1) by simp
  have wf2: "well_formed N (unscheduleTask (fst ?r) (snd ?r))" using wf1 by (rule wf_unscheduleTask)
  have cnt: "taskCount (unscheduleTask (fst ?r) (snd ?r)) = taskCount s"
    using live_length[OF wf2] live_length[OF assms(1)] lv by simp
  have ctr: "idCounter (unscheduleTask (fst ?r) (snd ?r)) = idCounter s + 1"
    using ok(2) by (simp add: unscheduleTask_def)
  show ?thesis by (intro conjI) (fact id, fact lv, fact cnt, fact ctr)
qed

text \<open>
  The amended C8 at \<open>two_pending\<close>.
\<close>

theorem schedule_then_unschedule_round_trip_witness:
  "well_formed 3 two_pending \<and> (3 :: nat) < 2 ^ 31 \<and> taskCount two_pending < 3 \<and>
   idCounter two_pending \<notin> taskId ` set (live two_pending) \<and>
   live (unscheduleTask (fst (scheduleTask 3 1 3 0 15 0 two_pending))
           (snd (scheduleTask 3 1 3 0 15 0 two_pending))) = live two_pending \<and>
   idCounter (unscheduleTask (fst (scheduleTask 3 1 3 0 15 0 two_pending))
           (snd (scheduleTask 3 1 3 0 15 0 two_pending))) = idCounter two_pending + 1"
proof -
  have h: "well_formed 3 two_pending" by code_simp
  have c: "taskCount two_pending < 3" by code_simp
  have n: "(3 :: nat) < 2 ^ 31" by simp
  have c': "int (taskCount two_pending) < capacity 3 \<or> (3 :: nat) < 2 ^ 31 \<and> taskCount two_pending < 3"
    using c n by simp
  have f: "\<forall>t \<in> set (live two_pending). taskId t \<noteq> idCounter two_pending" by code_simp
  have f': "idCounter two_pending \<notin> taskId ` set (live two_pending)" using f by auto
  note t = schedule_then_unschedule_round_trip[OF h c' f, where fn = 1 and pr = 3 and tick = 0 and delay = 15]
  have l: "live (unscheduleTask (fst (scheduleTask 3 1 3 0 15 0 two_pending))
           (snd (scheduleTask 3 1 3 0 15 0 two_pending))) = live two_pending"
    using t by blast
  have i: "idCounter (unscheduleTask (fst (scheduleTask 3 1 3 0 15 0 two_pending))
           (snd (scheduleTask 3 1 3 0 15 0 two_pending))) = idCounter two_pending + 1"
    using t by blast
  show ?thesis by (intro conjI) (fact h, fact n, fact c, fact f', fact l, fact i)
qed

subsection \<open>C9: unscheduling an absent id\<close>

text \<open>
  Claim C9 as stated fails in its second half: in \<open>twin_table\<close> two live tasks carry id 1
  (one scheduled with \<^verbatim>\<open>reuseId = 1\<close>, one fresh), \<^verbatim>\<open>unscheduleTask(1)\<close> removes the first
  and a repeated \<^verbatim>\<open>unscheduleTask(1)\<close> removes the second.
\<close>

theorem second_unschedule_removes_twin_counterexample:
  "map taskId (live twin_table) = [1, 1] \<and>
   taskCount (unscheduleTask 1 twin_table) = 1 \<and>
   taskCount (unscheduleTask 1 (unscheduleTask 1 twin_table)) = 0 \<and>
   unscheduleTask 1 (unscheduleTask 1 twin_table) \<noteq> unscheduleTask 1 twin_table"
  by code_simp

text \<open>
  Claim C9, amended.  For every well-formed scheduler state and every id that matches no
  live task, \<^verbatim>\<open>unscheduleTask(id)\<close> leaves the entire state (task table, \<^verbatim>\<open>taskCount\<close>,
  identity counter) unchanged; it is a total function, so it never fails.  Hence, when at
  most one live slot carries the id, repeating \<^verbatim>\<open>unscheduleTask(id)\<close> after the first call
  is a no-op.
\<close>

theorem unschedule_absent_id_is_noop:
  assumes "well_formed N s"
  shows "((\<forall>t \<in> set (live s). taskId t \<noteq> tid) \<longrightarrow> unscheduleTask tid s = s) \<and>
         (length (filter (\<lambda>t. taskId t = tid) (live s)) \<le> 1 \<longrightarrow>
            unscheduleTask tid (unscheduleTask tid s) = unscheduleTask tid s)"
proof -
  have noop: "(\<forall>t \<in> set (live s). taskId t \<noteq> tid) \<longrightarrow> unscheduleTask tid s = s"
    if "well_formed N s" for s
    using remove_loop_noop[of s 0 tid] that by (simp add: unscheduleTask_def well_formed_def)
  have "unscheduleTask tid (unscheduleTask tid s) = unscheduleTask tid s"
    if one: "length (filter (\<lambda>t. taskId t = tid) (live s)) \<le> 1"
  proof -
    have "\<forall>t \<in> set (live (unscheduleTask tid s)). taskId t \<noteq> tid"
      using del_id_single[OF one] by (simp add: unscheduleTask_live[OF assms])
    then show ?thesis using noop[OF wf_unscheduleTask[OF assms]] by simp
  qed
  then show ?thesis using noop[OF assms] by simp
qed

text \<open>
  The amended C9 at \<open>two_pending\<close>: id 7 is absent, id 2 is carried by one task.
\<close>

theorem unschedule_absent_id_is_noop_witness:
  "well_formed 3 two_pending \<and> 7 \<notin> taskId ` set (live two_pending) \<and>
   unscheduleTask 7 two_pending = two_pending \<and>
   length (filter (\<lambda>t. taskId t = 2) (live two_pending)) \<le> 1 \<and>
   unscheduleTask 2 (unscheduleTask 2 two_pending) = unscheduleTask 2 two_pending"
proof -
  have h: "well_formed 3 two_pending" by code_simp
  have a: "\<forall>t \<in> set (live two_pending). taskId t \<noteq> 7" by code_simp
  have b: "length (filter (\<lambda>t. taskId t = 2) (live two_pending)) \<le> 1" by code_simp
  have a': "7 \<notin> taskId ` set (live two_pending)" using a by auto
  from unschedule_absent_id_is_noop[OF h, where tid = 7]
    unschedule_absent_id_is_noop[OF h, where tid = 2] h a a' b
  show ?thesis by blast
qed

subsection \<open>C10: a reuse id that matches nothing\<close>

text \<open>
  Claim C10.  With a non-zero \<^verbatim>\<open>reuseId\<close> that matches no live task, capacity permitting
  (the test \<^verbatim>\<open>_taskCount >= static_cast<int>(MaxTaskCount)\<close> fails, which for \<open>N < 2 ^ 31\<close>
  means \<open>taskCount < N\<close>), \<^verbatim>\<open>scheduleTask\<close> returns \<^verbatim>\<open>reuseId\<close> and inserts the new task
  under that id at the place a fresh schedule would have used.  In every call with a
  non-zero \<^verbatim>\<open>reuseId\<close> the identity counter is not modified, and not read: result and table
  do not depend on it.  The counter changes in a \<^verbatim>\<open>scheduleTask\<close> call exactly when
  \<^verbatim>\<open>reuseId = 0\<close> and the call succeeds; \<^verbatim>\<open>unscheduleTask\<close> leaves it alone, and so does
  \<^verbatim>\<open>update\<close> when its callbacks do.
\<close>

theorem reuse_id_without_match_is_plain_insert:
  assumes "well_formed N s" and "rid \<noteq> 0"
  shows "((\<forall>t \<in> set (live s). taskId t \<noteq> rid) \<and> int (taskCount s) < capacity N \<longrightarrow>
            fst (scheduleTask N fn pr tick delay rid s) = rid \<and>
            taskCount (snd (scheduleTask N fn pr tick delay rid s)) = taskCount s + 1 \<and>
            live (snd (scheduleTask N fn pr tick delay rid s)) =
              ins_task \<lparr>executeTime = tick + delay, func = fn, param = pr, taskId = rid\<rparr> (live s) \<and>
            (\<exists>A B. live s = A @ B \<and>
               live (snd (scheduleTask N fn pr tick delay rid s)) =
                 A @ \<lparr>executeTime = tick + delay, func = fn, param = pr, taskId = rid\<rparr> # B \<and>
               live (snd (scheduleTask N fn pr tick delay 0 s)) =
                 A @ \<lparr>executeTime = tick + delay, func = fn, param = pr, taskId = idCounter s\<rparr> # B)) \<and>
         idCounter (snd (scheduleTask N fn pr tick delay rid s)) = idCounter s \<and>
         (\<forall>c. scheduleTask N fn pr tick delay rid (s\<lparr>idCounter := c\<rparr>) =
                (fst (scheduleTask N fn pr tick delay rid s),
                 (snd (scheduleTask N fn pr tick delay rid s))\<lparr>idCounter := c\<rparr>)) \<and>
         (\<forall>r. idCounter (snd (scheduleTask N fn pr tick delay r s)) \<noteq> idCounter s \<longleftrightarrow>
                r = 0 \<and> int (taskCount s) < capacity N) \<and>
         (N < 2 ^ 31 \<longrightarrow> (int (taskCount s) < capacity N \<longleftrightarrow> taskCount s < N)) \<and>
         idCounter (unscheduleTask tid s) = idCounter s \<and>
         (\<exists>s'. update quiet now s = Some (takeWhile (due now) (live s), s') \<and>
                idCounter s' = idCounter s) \<and>
         (\<forall>fired s'. (\<forall>f p s0. idCounter (cb f p s0) = idCounter s0) \<and>
                      update cb now s = Some (fired, s') \<longrightarrow>
                      idCounter s' = idCounter s)"
proof -
  let ?a = "\<lparr>executeTime = tick + delay, func = fn, param = pr, taskId = rid\<rparr>"
  let ?b = "\<lparr>executeTime = tick + delay, func = fn, param = pr, taskId = idCounter s\<rparr>"
  have p1: "(\<forall>t \<in> set (live s). taskId t \<noteq> rid) \<and> int (taskCount s) < capacity N \<longrightarrow>
            fst (scheduleTask N fn pr tick delay rid s) = rid \<and>
            taskCount (snd (scheduleTask N fn pr tick delay rid s)) = taskCount s + 1 \<and>
            live (snd (scheduleTask N fn pr tick delay rid s)) = ins_task ?a (live s) \<and>
            (\<exists>A B. live s = A @ B \<and>
               live (snd (scheduleTask N fn pr tick delay rid s)) = A @ ?a # B \<and>
               live (snd (scheduleTask N fn pr tick delay 0 s)) = A @ ?b # B)"
  proof
    assume h: "(\<forall>t \<in> set (live s). taskId t \<noteq> rid) \<and> int (taskCount s) < capacity N"
    then have rr: "reuse_removal rid s = s" using reuse_removal_noop[OF assms(1)] by blast
    have r0: "reuse_removal 0 s = s" by (simp add: reuse_removal_def)
    have free: "int (taskCount (reuse_removal rid s)) < capacity N"
      "int (taskCount (reuse_removal 0 s)) < capacity N"
      using h by (simp_all add: rr r0)
    note ok = scheduleTask_ok(1-5)[OF assms(1) free(1), of fn pr tick delay, unfolded rr]
    note ok0 = scheduleTask_ok(1-5)[OF assms(1) free(2), of fn pr tick delay, unfolded r0]
    have la: "live (snd (scheduleTask N fn pr tick delay rid s)) = ins_task ?a (live s)"
      using ok(5) assms(2) by (simp add: new_slot_def)
    have lb: "live (snd (scheduleTask N fn pr tick delay 0 s)) = ins_task ?b (live s)"
      using ok0(5) by (simp add: new_slot_def)
    have "\<exists>A B. live s = A @ B \<and> ins_task ?a (live s) = A @ ?a # B \<and> ins_task ?b (live s) = A @ ?b # B"
      by (rule ins_task_same_place) simp
    then show "fst (scheduleTask N fn pr tick delay rid s) = rid \<and>
            taskCount (snd (scheduleTask N fn pr tick delay rid s)) = taskCount s + 1 \<and>
            live (snd (scheduleTask N fn pr tick delay rid s)) = ins_task ?a (live s) \<and>
            (\<exists>A B. live s = A @ B \<and>
               live (snd (scheduleTask N fn pr tick delay rid s)) = A @ ?a # B \<and>
               live (snd (scheduleTask N fn pr tick delay 0 s)) = A @ ?b # B)"
      using ok(1,3) assms(2) la lb by simp
  qed
  have p2: "idCounter (snd (scheduleTask N fn pr tick delay rid s)) = idCounter s"
    using scheduleTask_counter[OF assms(1), of fn pr tick delay rid] assms(2) by simp
  have p3: "\<forall>c. scheduleTask N fn pr tick delay rid (s\<lparr>idCounter := c\<rparr>) =
                (fst (scheduleTask N fn pr tick delay rid s),
                 (snd (scheduleTask N fn pr tick delay rid s))\<lparr>idCounter := c\<rparr>)"
    using scheduleTask_counter_indep[OF assms(2)] by blast
  have p4: "\<forall>r. idCounter (snd (scheduleTask N fn pr tick delay r s)) \<noteq> idCounter s \<longleftrightarrow>
                r = 0 \<and> int (taskCount s) < capacity N"
    using scheduleTask_counter[OF assms(1), of fn pr tick delay] by simp
  have p4': "N < 2 ^ 31 \<longrightarrow> (int (taskCount s) < capacity N \<longleftrightarrow> taskCount s < N)"
    using capacity_small[of N] by auto
  have p5: "idCounter (unscheduleTask tid s) = idCounter s"
    by (simp add: unscheduleTask_def)
  have p6: "\<exists>s'. update quiet now s = Some (takeWhile (due now) (live s), s') \<and>
                idCounter s' = idCounter s"
    using update_quiet[OF assms(1), of now] by blast
  have p7: "\<forall>fired s'. (\<forall>f p s0. idCounter (cb f p s0) = idCounter s0) \<and>
                      update cb now s = Some (fired, s') \<longrightarrow>
                      idCounter s' = idCounter s"
  proof (intro allI impI)
    fix fired s'
    assume h: "(\<forall>f p s0. idCounter (cb f p s0) = idCounter s0) \<and>
               update cb now s = Some (fired, s')"
    then have "idCounter (snd (fired, s')) = idCounter s"
      by (intro update_keeps_counter[of cb now s]) simp_all
    then show "idCounter s' = idCounter s" by simp
  qed
  show ?thesis
    by (intro conjI) (fact p1, fact p2, fact p3, fact p4, fact p4', fact p5, fact p6, fact p7)
qed

text \<open>
  C10 at \<open>two_pending\<close> with the unused id 9.
\<close>

theorem reuse_id_without_match_is_plain_insert_witness:
  "well_formed 3 two_pending \<and> (9 :: u32) \<noteq> 0 \<and>
   9 \<notin> taskId ` set (live two_pending) \<and> int (taskCount two_pending) < capacity 3 \<and>
   fst (scheduleTask 3 1 3 0 5 9 two_pending) = 9 \<and>
   taskCount (snd (scheduleTask 3 1 3 0 5 9 two_pending)) = taskCount two_pending + 1 \<and>
   idCounter (snd (scheduleTask 3 1 3 0 5 9 two_pending)) = idCounter two_pending"
proof -
  have h: "well_formed 3 two_pending" by code_simp
  have n: "(9 :: u32) \<noteq> 0" by simp
  have a: "\<forall>t \<in> set (live two_pending). taskId t \<noteq> 9" by code_simp
  have "taskCount two_pending = 2" by code_simp
  then have c: "int (taskCount two_pending) < capacity 3" using capacity_small[of 3] by simp
  have a': "9 \<notin> taskId ` set (live two_pending)" using a by auto
  from reuse_id_without_match_is_plain_insert[OF h n, where fn = 1 and pr = 3 and tick = 0 and delay = 5 and tid = 2 and now = 10]
    h n a a' c show ?thesis
    by blast
qed

end
